theory Spec2Isabelle
  imports Main
begin

section \<open>The task store\<close>

text \<open>
  The task manager (\<^verbatim>\<open>api/service/task_manager.py\<close>) keeps one Redis hash per
  task under the key \<^verbatim>\<open>task:ID\<close>, a counter and a list of queued task
  descriptors. The client decodes every reply, so a hash is a map from field names to
  text. A key carries an optional expiry instant, and the server decides at the instant
  at which it executes a command whether the key is still there. Every command therefore
  takes the instant of its execution, in whole seconds of the server's clock; a function
  of the module that issues several commands takes one instant for each of them, in the
  order in which it issues them, since the record can expire between two commands.
\<close>

record entry =
  hfields :: "string \<rightharpoonup> string"
  expires_at :: "nat option"

record task_data =
  td_id :: string
  td_input_file :: string
  td_output_format :: string
  td_retry :: bool

record redis =
  hashes :: "string \<rightharpoonup> entry"
  task_queue :: "task_data list"
  task_counter :: nat

text \<open>Exceptions: those the modelled code raises itself, and \<open>Error\<close> for any other
  exception, named by its text, that a collaborator (a converter, the network) raises.\<close>

datatype py_error = KeyError | ValueError | TypeError | NameError | Error string

subsection \<open>The Redis commands the module uses\<close>

definition live :: "redis \<Rightarrow> nat \<Rightarrow> string \<Rightarrow> entry option" where
  "live r now k =
     (case hashes r k of
        None \<Rightarrow> None
      | Some e \<Rightarrow>
          (case expires_at e of
             None \<Rightarrow> Some e
           | Some t \<Rightarrow> if t \<le> now then None else Some e))"

definition exists_key :: "redis \<Rightarrow> nat \<Rightarrow> string \<Rightarrow> bool" where
  "exists_key r now k = (live r now k \<noteq> None)"

definition hget :: "redis \<Rightarrow> nat \<Rightarrow> string \<Rightarrow> string \<Rightarrow> string option" where
  "hget r now k f = (case live r now k of None \<Rightarrow> None | Some e \<Rightarrow> hfields e f)"

definition hgetall :: "redis \<Rightarrow> nat \<Rightarrow> string \<Rightarrow> (string \<rightharpoonup> string)" where
  "hgetall r now k = (case live r now k of None \<Rightarrow> Map.empty | Some e \<Rightarrow> hfields e)"

text \<open>HSET merges into a live hash and keeps its expiry; on a missing or expired key it
  creates a hash with no expiry.\<close>

definition hset :: "redis \<Rightarrow> nat \<Rightarrow> string \<Rightarrow> (string \<rightharpoonup> string) \<Rightarrow> redis" where
  "hset r now k mapping =
     (case live r now k of
        None \<Rightarrow> r\<lparr>hashes := (hashes r)(k \<mapsto> \<lparr>hfields = mapping, expires_at = None\<rparr>)\<rparr>
      | Some e \<Rightarrow> r\<lparr>hashes := (hashes r)(k \<mapsto> e\<lparr>hfields := hfields e ++ mapping\<rparr>)\<rparr>)"

definition expire :: "redis \<Rightarrow> nat \<Rightarrow> string \<Rightarrow> nat \<Rightarrow> redis" where
  "expire r now k secs =
     (case live r now k of
        None \<Rightarrow> r
      | Some e \<Rightarrow> r\<lparr>hashes := (hashes r)(k \<mapsto> e\<lparr>expires_at := Some (now + secs)\<rparr>)\<rparr>)"

definition incr :: "redis \<Rightarrow> nat \<times> redis" where
  "incr r = (Suc (task_counter r), r\<lparr>task_counter := Suc (task_counter r)\<rparr>)"

definition lpush :: "redis \<Rightarrow> task_data \<Rightarrow> redis" where
  "lpush r x = r\<lparr>task_queue := x # task_queue r\<rparr>"

subsection \<open>Text and numbers\<close>

text \<open>A character is a code point below 256. \<^verbatim>\<open>str\<close> of an integer writes its decimal
  digits. \<^verbatim>\<open>int\<close> of a text reads a decimal numeral the way the interpreter does:
  white space around it is dropped, one sign may come first, and the digits may be
  grouped by single underscores, each between two digits. Below 256 the decimal digits
  are \<^verbatim>\<open>0\<close> to \<^verbatim>\<open>9\<close> and the white space is the code points 9 to 13, 28 to 32, 133
  and 160. Any other text is unreadable (\<^verbatim>\<open>ValueError\<close>). The interpreter's limit on
  the number of digits of an integer text (4300 digits, in the versions that have one) is
  not part of the model.\<close>

definition digit_of :: "nat \<Rightarrow> char" where
  "digit_of d = ''0123456789'' ! d"

fun str_nat :: "nat \<Rightarrow> string" where
  "str_nat n = (if n < 10 then [digit_of n] else str_nat (n div 10) @ [digit_of (n mod 10)])"

declare str_nat.simps [simp del]

definition py_str :: "int \<Rightarrow> string" where
  "py_str i = (if i < 0 then CHR ''-'' # str_nat (nat (- i)) else str_nat (nat i))"

definition is_digit :: "char \<Rightarrow> bool" where
  "is_digit c = (48 \<le> (of_char c :: nat) \<and> (of_char c :: nat) \<le> 57)"

definition is_space :: "char \<Rightarrow> bool" where
  "is_space c =
     (let n = (of_char c :: nat)
      in (9 \<le> n \<and> n \<le> 13) \<or> (28 \<le> n \<and> n \<le> 32) \<or> n = 133 \<or> n = 160)"

definition strip :: "string \<Rightarrow> string" where
  "strip s = rev (dropWhile is_space (rev (dropWhile is_space s)))"

fun grouped_digits :: "string \<Rightarrow> bool" where
  "grouped_digits [] = False"
| "grouped_digits [c] = is_digit c"
| "grouped_digits (c # d # cs) =
     (is_digit c \<and> (if d = CHR ''_'' then grouped_digits cs else grouped_digits (d # cs)))"

definition nat_of_digits :: "string \<Rightarrow> nat" where
  "nat_of_digits ds = foldl (\<lambda>a c. 10 * a + (of_char c - 48)) 0 ds"

definition read_digits :: "string \<Rightarrow> nat option" where
  "read_digits ds =
     (if grouped_digits ds then Some (nat_of_digits (filter (\<lambda>c. c \<noteq> CHR ''_'') ds)) else None)"

definition py_int :: "string \<Rightarrow> int option" where
  "py_int s =
     (case strip s of
        [] \<Rightarrow> None
      | c # cs \<Rightarrow>
          if c = CHR ''-'' then map_option (\<lambda>n. - int n) (read_digits cs)
          else if c = CHR ''+'' then map_option int (read_digits cs)
          else map_option int (read_digits (c # cs)))"

subsection \<open>The task manager\<close>

definition task_key :: "string \<Rightarrow> string" where
  "task_key task_id = ''task:'' @ task_id"

text \<open>\<^verbatim>\<open>generate_task_id\<close>: \<open>secs\<close> is \<^verbatim>\<open>int(time.time())\<close>, the whole seconds of the
  caller's clock, and \<open>random_id\<close> the eight characters taken from a fresh UUID.\<close>

definition generate_task_id :: "redis \<Rightarrow> nat \<Rightarrow> string \<Rightarrow> string \<times> redis" where
  "generate_task_id r secs random_id =
     (let (task_number, r') = incr r
      in (str_nat secs @ ''-'' @ str_nat task_number @ ''-'' @ random_id, r'))"

text \<open>Modelled from the spec: the record class \<^verbatim>\<open>TaskStatusResponse\<close> of
  \<^verbatim>\<open>api/models/schemas.py\<close>, which is not among the sources. Its dump is taken to be
  the flat field map of the eight attributes that \<^verbatim>\<open>create_task\<close> passes to it.

  \<^verbatim>\<open>create_task\<close> reads the caller's clock twice; \<open>created\<close> and \<open>updated\<close> are the
  texts the client writes for the two floating-point readings. \<open>t_hset\<close> and \<open>t_expire\<close>
  are the instants of the two commands.\<close>

definition create_task ::
  "redis \<Rightarrow> nat \<Rightarrow> string \<Rightarrow> string \<Rightarrow> string \<Rightarrow> nat \<Rightarrow> nat \<Rightarrow> string \<Rightarrow> string
     \<Rightarrow> (string \<times> (string \<rightharpoonup> string)) \<times> redis" where
  "create_task r secs random_id created updated t_hset t_expire input_file_url output_format =
     (let (task_id, r1) = generate_task_id r secs random_id;
          task_info = [''task_id'' \<mapsto> task_id,
                       ''status'' \<mapsto> ''QUEUED'',
                       ''input_file'' \<mapsto> input_file_url,
                       ''output_format'' \<mapsto> output_format,
                       ''created_at'' \<mapsto> created,
                       ''updated_at'' \<mapsto> updated,
                       ''result_url'' \<mapsto> [],
                       ''error'' \<mapsto> []];
          r2 = hset r1 t_hset (task_key task_id) task_info;
          r3 = expire r2 t_expire (task_key task_id) 300
      in ((task_id, task_info), r3))"

text \<open>\<^verbatim>\<open>get_task_status\<close> asks whether the key exists and then reads the hash: two
  commands.\<close>

definition get_task_status ::
  "redis \<Rightarrow> nat \<Rightarrow> nat \<Rightarrow> string \<Rightarrow> (string \<rightharpoonup> string) option" where
  "get_task_status r t_exists t_hgetall task_id =
     (if \<not> exists_key r t_exists (task_key task_id) then None
      else Some (hgetall r t_hgetall (task_key task_id)))"

text \<open>\<^verbatim>\<open>update_task_status(task_id, status, **additional_info)\<close>. A keyword argument
  named \<^verbatim>\<open>task_id\<close> or \<^verbatim>\<open>status\<close> collides with a parameter and the call raises
  \<^verbatim>\<open>TypeError\<close> before it does anything. The existence check and the write are two
  commands, executed at \<open>t_exists\<close> and at \<open>t_hset\<close>; \<open>stamp\<close> is the text the client
  writes for the floating-point reading of the caller's clock taken between them. The
  function issues no \<^verbatim>\<open>EXPIRE\<close>.\<close>

definition update_task_status ::
  "redis \<Rightarrow> nat \<Rightarrow> nat \<Rightarrow> string \<Rightarrow> string \<Rightarrow> string \<Rightarrow> (string \<rightharpoonup> string)
     \<Rightarrow> py_error + (bool \<times> redis)" where
  "update_task_status r t_exists t_hset stamp task_id status additional_info =
     (if additional_info ''task_id'' \<noteq> None \<or> additional_info ''status'' \<noteq> None then Inl TypeError
      else if \<not> exists_key r t_exists (task_key task_id) then Inr (False, r)
      else
        (let update_data = [''status'' \<mapsto> status, ''updated_at'' \<mapsto> stamp] ++ additional_info
         in Inr (True, hset r t_hset (task_key task_id) update_data)))"

text \<open>\<^verbatim>\<open>requeue_task\<close> issues five commands: the two of \<^verbatim>\<open>get_task_status\<close> (at
  \<open>t1\<close> and \<open>t2\<close>), the two of \<^verbatim>\<open>update_task_status\<close> (at \<open>t3\<close> and \<open>t4\<close>) and the
  push on the queue, which has no expiry and needs no instant. A missing record (or an
  empty one) gives \<open>False\<close>; a record with no \<^verbatim>\<open>input_file\<close> or \<^verbatim>\<open>output_format\<close>
  field raises \<^verbatim>\<open>KeyError\<close>, an unreadable \<^verbatim>\<open>retry_count\<close> raises \<^verbatim>\<open>ValueError\<close>.
  What \<^verbatim>\<open>update_task_status\<close> answers is dropped, and neither the status nor the retry
  count is tested before the record goes back to \<^verbatim>\<open>QUEUED\<close>.\<close>

definition requeue_task ::
  "redis \<Rightarrow> nat \<Rightarrow> nat \<Rightarrow> nat \<Rightarrow> nat \<Rightarrow> string \<Rightarrow> string \<Rightarrow> py_error + (bool \<times> redis)" where
  "requeue_task r t1 t2 t3 t4 stamp task_id =
     (case get_task_status r t1 t2 task_id of
        None \<Rightarrow> Inr (False, r)
      | Some task_info \<Rightarrow>
          if task_info = Map.empty then Inr (False, r)
          else
            (case task_info ''input_file'' of
               None \<Rightarrow> Inl KeyError
             | Some input_file \<Rightarrow>
                 (case task_info ''output_format'' of
                    None \<Rightarrow> Inl KeyError
                  | Some output_format \<Rightarrow>
                      (case (case task_info ''retry_count'' of None \<Rightarrow> Some 0 | Some s \<Rightarrow> py_int s) of
                         None \<Rightarrow> Inl ValueError
                       | Some n \<Rightarrow>
                           (let task_data = \<lparr>td_id = task_id, td_input_file = input_file,
                                             td_output_format = output_format, td_retry = True\<rparr>
                            in case update_task_status r t3 t4 stamp task_id ''QUEUED''
                                      [''retry_count'' \<mapsto> py_str (n + 1)] of
                                 Inl e \<Rightarrow> Inl e
                               | Inr (ok, r1) \<Rightarrow> Inr (True, lpush r1 task_data))))))"

subsection \<open>The claim script\<close>

text \<open>\<^verbatim>\<open>service/worker.py\<close>: the Lua script runs inside the store as one command, so the
  read of the status and the write of \<^verbatim>\<open>PROCESSING\<close> are one step of the store.\<close>

definition claim_task_with_lua :: "redis \<Rightarrow> nat \<Rightarrow> string \<Rightarrow> bool \<times> redis" where
  "claim_task_with_lua r now task_id =
     (let task_key = task_key task_id;
          current_status = hget r now task_key ''status''
      in if current_status = Some ''QUEUED''
         then (True, hset r now task_key [''status'' \<mapsto> ''PROCESSING''])
         else (False, r))"

text \<open>Concurrent attempts reach the store in some order; the store runs them one after
  the other. \<open>claim_all\<close> runs the attempts of a list of callers, each for the task it
  names, and returns what each caller was told.\<close>

fun claim_all :: "redis \<Rightarrow> nat \<Rightarrow> string list \<Rightarrow> bool list \<times> redis" where
  "claim_all r now [] = ([], r)"
| "claim_all r now (t # ts) =
     (let (b, r1) = claim_task_with_lua r now t;
          (bs, r2) = claim_all r1 now ts
      in (b # bs, r2))"

definition winners :: "string \<Rightarrow> string list \<Rightarrow> bool list \<Rightarrow> nat" where
  "winners t ts bs = length (filter (\<lambda>(t', b). t' = t \<and> b) (zip ts bs))"

subsection \<open>A store with one queued task\<close>

text \<open>\<open>flushdb\<close> is the store after \<^verbatim>\<open>clear_redis\<close>; \<open>demo_store\<close> holds the one task
  created in it at instant 0, and \<open>done_store\<close> the same task after a worker reported it
  \<^verbatim>\<open>COMPLETED\<close> at instant 50 with three retries on record.\<close>

definition flushdb :: redis where
  "flushdb = \<lparr>hashes = Map.empty, task_queue = [], task_counter = 0\<rparr>"

definition demo_store :: redis where
  "demo_store = snd (create_task flushdb 0 ''b5e4830d'' ''0.25'' ''0.25'' 0 0
                       ''https://r2/model.step'' ''stl'')"

definition done_store :: redis where
  "done_store =
     (case update_task_status demo_store 50 50 ''50.5'' ''0-1-b5e4830d'' ''COMPLETED''
             [''result_url'' \<mapsto> ''https://r2/out.stl'', ''retry_count'' \<mapsto> ''3''] of
        Inr (ok, r) \<Rightarrow> r
      | Inl e \<Rightarrow> demo_store)"

section \<open>The converter manager\<close>

text \<open>
  \<^verbatim>\<open>api/service/converters/converter_manager.py\<close>. A format is a string, a step of a
  conversion path is the triple (source format, target format, converter key). A call
  returns a value, raises, or does not return.
\<close>

type_synonym step = "string \<times> string \<times> string"

datatype 'a outcome = Returns 'a | Raises py_error | Diverges

text \<open>What the manager hands back as the second component of its result: the text a
  converter returned (the output path, on success), or one of its own messages. The
  messages are format strings; each constructor stands for one of them and carries the
  values the string interpolates:
  \<^item> \<open>NoPath i out\<close>: no conversion path found from \<open>i\<close> to \<open>out\<close> (a missing value is
    printed as \<^verbatim>\<open>None\<close>);
  \<^item> \<open>ConvertFailed src dst\<close>: conversion failed, \<open>src -> dst\<close> (single-step path);
  \<^item> \<open>StepFailed n src dst\<close>: step \<open>n\<close> of the conversion path failed, \<open>src -> dst\<close>;
  \<^item> \<open>LastStepFailed src dst\<close>: the last step of the conversion failed, \<open>src -> dst\<close>;
  \<^item> \<open>CopyFailed\<close>: copying the file failed.\<close>

datatype result_text =
    Path string
  | NoPath "string option" "string option"
  | ConvertFailed string string
  | StepFailed nat string string
  | LastStepFailed string string
  | CopyFailed

subsection \<open>Converters, the registry and the world they act on\<close>

text \<open>A converter (\<^verbatim>\<open>BaseConverter\<close>) names its two formats and converts a file: given
  the input path, the output path and the files that exist, it returns a success flag
  and a text, or raises, and leaves some set of files behind. The keyword parameters of a
  conversion are handed unchanged to every converter and are left out.\<close>

record converter =
  input_format :: string
  output_format :: string
  convert :: "string \<Rightarrow> string \<Rightarrow> string set \<Rightarrow> (bool \<times> string) outcome \<times> string set"

text \<open>The registry is a dictionary from keys to converters, in insertion order; the
  format graph is a dictionary from a source format to its list of edges
  (target format, converter key, weight). Weights are counted in halves, so that the
  weight 1 of the source is 2 and its weight 0.5 is 1: every cost the search computes is a
  sum of such weights and the comparison with \<^verbatim>\<open>max_steps\<close> is a comparison with
  \<open>2 * max_steps\<close>.\<close>

type_synonym registry = "(string \<times> converter) list"
type_synonym edge = "string \<times> string \<times> nat"
type_synonym graph = "(string \<times> edge list) list"

record manager =
  registry :: registry
  format_graph :: graph

text \<open>The world of an execution: the files that exist; the paths that the operating
  system refuses to remove (\<^verbatim>\<open>os.remove\<close> raises on them: not permitted, in use, a
  directory); the names the temporary-file module will hand out, one for each request in
  turn, where \<open>None\<close> is a request that fails (\<^verbatim>\<open>OSError\<close>); what \<^verbatim>\<open>shutil.copy2\<close>
  does (the files afterwards, or \<open>None\<close> when it raises); and two logs kept for the
  statements below, of the temporary files made and of the converter calls made (key,
  input path, output path, and the flag the converter reported, if it returned).\<close>

record world =
  files :: "string set"
  locked :: "string set"
  temp_names :: "nat \<Rightarrow> string option"
  copy2 :: "string \<Rightarrow> string \<Rightarrow> string set \<Rightarrow> string set option"
  temps_made :: "string list"
  calls :: "(string \<times> string \<times> string \<times> bool option) list"

subsection \<open>Strings\<close>

text \<open>\<^verbatim>\<open>str.lower\<close>. A character is a code point below 256; the upper-case letters
  among them are A to Z (65 to 90) and the accented capitals 192 to 222 without the
  multiplication sign 215, each 32 below its lower-case letter.\<close>

definition lower_char :: "char \<Rightarrow> char" where
  "lower_char c =
     (let n = (of_char c :: nat)
      in if (65 \<le> n \<and> n \<le> 90) \<or> (192 \<le> n \<and> n \<le> 222 \<and> n \<noteq> 215) then char_of (n + 32) else c)"

definition lower :: "string \<Rightarrow> string" where
  "lower s = map lower_char s"

text \<open>The order of strings that tuple comparison in the heap uses: lexicographic, by
  character code.\<close>

fun str_less :: "string \<Rightarrow> string \<Rightarrow> bool" where
  "str_less [] [] = False"
| "str_less [] (y # ys) = True"
| "str_less (x # xs) [] = False"
| "str_less (x # xs) (y # ys) =
     ((of_char x :: nat) < of_char y \<or> (x = y \<and> str_less xs ys))"

text \<open>\<^verbatim>\<open>os.path.splitext(p)[1]\<close> with path separator \<^verbatim>\<open>/\<close>: the extension starts at
  the last dot of the last path component, leading dots of the component apart.\<close>

definition basename :: "string \<Rightarrow> string" where
  "basename p = rev (takeWhile (\<lambda>c. c \<noteq> CHR ''/'') (rev p))"

definition splitext_ext :: "string \<Rightarrow> string" where
  "splitext_ext p =
     (let name = dropWhile (\<lambda>c. c = CHR ''.'') (basename p)
      in if CHR ''.'' \<in> set name
         then CHR ''.'' # rev (takeWhile (\<lambda>c. c \<noteq> CHR ''.'') (rev name))
         else [])"

definition lstrip_dot :: "string \<Rightarrow> string" where
  "lstrip_dot s = dropWhile (\<lambda>c. c = CHR ''.'') s"

text \<open>Truth of an optional string argument: given and not empty.\<close>

fun truthy :: "string option \<Rightarrow> bool" where
  "truthy None = False"
| "truthy (Some s) = (s \<noteq> [])"

subsection \<open>Loading converters and building the graph\<close>

fun dict_set :: "('k \<times> 'v) list \<Rightarrow> 'k \<Rightarrow> 'v \<Rightarrow> ('k \<times> 'v) list" where
  "dict_set [] k v = [(k, v)]"
| "dict_set ((k', v') # kvs) k v =
     (if k' = k then (k, v) # kvs else (k', v') # dict_set kvs k v)"

definition registry_key :: "converter \<Rightarrow> string" where
  "registry_key instance = lower (input_format instance) @ ''_to_'' @ lower (output_format instance)"

definition register :: "registry \<Rightarrow> converter \<Rightarrow> registry" where
  "register reg instance = dict_set reg (registry_key instance) instance"

definition load_converters :: "converter list \<Rightarrow> registry" where
  "load_converters instances = foldl register [] instances"

definition alias_pair :: "string \<Rightarrow> string \<Rightarrow> bool" where
  "alias_pair input_fmt output_fmt =
     ((input_fmt \<in> set [''step'', ''stp''] \<and> output_fmt \<in> set [''step'', ''stp'']) \<or>
      (input_fmt \<in> set [''iges'', ''igs''] \<and> output_fmt \<in> set [''iges'', ''igs'']))"

definition edge_weight :: "string \<Rightarrow> string \<Rightarrow> nat" where
  "edge_weight input_fmt output_fmt = (if alias_pair input_fmt output_fmt then 1 else 2)"

fun graph_append :: "graph \<Rightarrow> string \<Rightarrow> edge \<Rightarrow> graph" where
  "graph_append [] k e = [(k, [e])]"
| "graph_append ((k', es) # g) k e =
     (if k' = k then (k', es @ [e]) # g else (k', es) # graph_append g k e)"

definition build_format_graph :: "registry \<Rightarrow> graph" where
  "build_format_graph reg =
     foldl (\<lambda>g (key, converter).
              (let input_fmt = lower (input_format converter);
                   output_fmt = lower (output_format converter)
               in graph_append g input_fmt (output_fmt, key, edge_weight input_fmt output_fmt)))
       [] reg"

definition manager_of :: "registry \<Rightarrow> manager" where
  "manager_of reg = \<lparr>registry = reg, format_graph = build_format_graph reg\<rparr>"

definition new_manager :: "converter list \<Rightarrow> manager" where
  "new_manager instances = manager_of (load_converters instances)"

text \<open>The graph is a \<^verbatim>\<open>defaultdict\<close>: reading it at a format that has no entry gives
  the empty list (and adds that empty entry, which no later read can tell from a missing
  one, so the graph is not handed on).\<close>

definition adjacent :: "graph \<Rightarrow> string \<Rightarrow> edge list" where
  "adjacent g k = (case map_of g k of None \<Rightarrow> [] | Some es \<Rightarrow> es)"

subsection \<open>The search\<close>

text \<open>The priority queue holds pairs (cost, format); \<^verbatim>\<open>heappop\<close> removes a smallest
  pair, by cost and then by format.\<close>

type_synonym heap_item = "nat \<times> string"

definition item_less :: "heap_item \<Rightarrow> heap_item \<Rightarrow> bool" where
  "item_less a b = (fst a < fst b \<or> (fst a = fst b \<and> str_less (snd a) (snd b)))"

fun heap_min :: "heap_item \<Rightarrow> heap_item list \<Rightarrow> heap_item" where
  "heap_min m [] = m"
| "heap_min m (x # xs) = heap_min (if item_less x m then x else m) xs"

definition heappop :: "heap_item list \<Rightarrow> (heap_item \<times> heap_item list) option" where
  "heappop pq =
     (case pq of
        [] \<Rightarrow> None
      | x # xs \<Rightarrow> (let m = heap_min x xs in Some (m, remove1 m pq)))"

definition heappush :: "heap_item list \<Rightarrow> heap_item \<Rightarrow> heap_item list" where
  "heappush pq x = pq @ [x]"

record search =
  dist :: "string \<rightharpoonup> nat"
  prev :: "string \<rightharpoonup> string \<times> string"
  pq :: "heap_item list"

text \<open>The inner loop over the edges of the format taken from the queue.\<close>

fun relax :: "nat \<Rightarrow> string \<Rightarrow> edge list \<Rightarrow> search \<Rightarrow> search" where
  "relax cost current [] s = s"
| "relax cost current ((next_fmt, converter_key, weight) # es) s =
     (let new_cost = cost + weight
      in relax cost current es
           (if (case dist s next_fmt of None \<Rightarrow> True | Some d \<Rightarrow> new_cost < d)
            then s\<lparr>dist := (dist s)(next_fmt \<mapsto> new_cost),
                   prev := (prev s)(next_fmt \<mapsto> (current, converter_key)),
                   pq := heappush (pq s) (new_cost, next_fmt)\<rparr>
            else s))"

text \<open>For the termination of the outer loop: every push lowers the recorded cost of a
  target format of the graph, below a cap that no cost of an expanded format reaches.\<close>

definition targets :: "graph \<Rightarrow> string set" where
  "targets g = (\<Union>(k, es) \<in> set g. (\<lambda>(v, key, w). v) ` set es)"

definition weight_bound :: "graph \<Rightarrow> nat" where
  "weight_bound g = sum_list (map (\<lambda>(k, es). sum_list (map (\<lambda>(v, key, w). w) es)) g)"

definition cap :: "graph \<Rightarrow> int \<Rightarrow> nat" where
  "cap g max_steps = nat (2 * max_steps) + weight_bound g + 1"

definition pot :: "nat \<Rightarrow> nat option \<Rightarrow> nat" where
  "pot c d = (case d of None \<Rightarrow> c | Some x \<Rightarrow> min x c)"

definition potential :: "graph \<Rightarrow> int \<Rightarrow> search \<Rightarrow> nat" where
  "potential g max_steps s = (\<Sum>v \<in> targets g. pot (cap g max_steps) (dist s v)) + length (pq s)"

lemma heap_min_mem: "heap_min m xs \<in> set (m # xs)"
  by (induction xs arbitrary: m) auto

lemma heappop_shrinks:
  assumes "heappop q = Some (m, rest)"
  shows "m \<in> set q \<and> rest = remove1 m q \<and> length q = Suc (length rest)"
proof (cases q)
  case Nil
  with assms show ?thesis by (simp add: heappop_def)
next
  case (Cons x xs)
  with assms have m: "m = heap_min x xs" and r: "rest = remove1 m q"
    by (auto simp: heappop_def Let_def)
  have mem: "m \<in> set q" using heap_min_mem [of x xs] m Cons by simp
  then have "0 < length q" by (rule length_pos_if_in_set)
  then have "length q = Suc (length (remove1 m q))"
    using mem by (simp only: length_remove1 if_True Suc_pred)
  then show ?thesis using mem r by simp
qed

lemma finite_targets: "finite (targets g)"
  by (auto simp: targets_def)

lemma adjacent_mem:
  assumes "e \<in> set (adjacent g u)"
  shows "\<exists>es. (u, es) \<in> set g \<and> e \<in> set es"
proof (cases "map_of g u")
  case None
  with assms show ?thesis by (simp add: adjacent_def)
next
  case (Some es)
  with assms have "e \<in> set es" by (simp add: adjacent_def)
  with map_of_SomeD [OF Some] show ?thesis by blast
qed

lemma adjacent_target:
  "(v, key, w) \<in> set (adjacent g u) \<Longrightarrow> v \<in> targets g"
  by (force simp: targets_def dest: adjacent_mem)

lemma sum_list_member_le: "x \<in> set xs \<Longrightarrow> (x::nat) \<le> sum_list xs"
  by (induction xs) auto

lemma adjacent_weight:
  assumes "(v, key, w) \<in> set (adjacent g u)"
  shows "w \<le> weight_bound g"
proof -
  from adjacent_mem [OF assms] obtain es where es: "(u, es) \<in> set g" "(v, key, w) \<in> set es"
    by blast
  have "w \<in> set (map (\<lambda>(v, key, w). w) es)" using es(2) by force
  then have "w \<le> sum_list (map (\<lambda>(v, key, w). w) es)" by (rule sum_list_member_le)
  also have "sum_list (map (\<lambda>(v, key, w). w) es)
      \<in> set (map (\<lambda>(k, es). sum_list (map (\<lambda>(v, key, w). w) es)) g)"
    using es(1) by force
  then have "sum_list (map (\<lambda>(v, key, w). w) es) \<le> weight_bound g"
    unfolding weight_bound_def by (rule sum_list_member_le)
  finally show ?thesis .
qed

lemma pot_lower:
  assumes "finite T" "v \<in> T" "n < c" "case d v of None \<Rightarrow> True | Some x \<Rightarrow> n < x"
  shows "(\<Sum>x \<in> T. pot c ((d(v \<mapsto> n)) x)) < (\<Sum>x \<in> T. pot c (d x))"
proof -
  have 1: "(\<Sum>x \<in> T. pot c ((d(v \<mapsto> n)) x)) = pot c (Some n) + (\<Sum>x \<in> T - {v}. pot c ((d(v \<mapsto> n)) x))"
    using assms(1,2) by (simp add: sum.remove)
  have 2: "(\<Sum>x \<in> T. pot c (d x)) = pot c (d v) + (\<Sum>x \<in> T - {v}. pot c (d x))"
    using assms(1,2) by (simp add: sum.remove)
  have 3: "(\<Sum>x \<in> T - {v}. pot c ((d(v \<mapsto> n)) x)) = (\<Sum>x \<in> T - {v}. pot c (d x))"
    by (rule sum.cong) auto
  have 4: "pot c (Some n) < pot c (d v)"
    using assms(3,4) by (auto simp: pot_def split: option.splits)
  show ?thesis using 1 2 3 4 by linarith
qed

lemma relax_potential:
  assumes "finite T" "\<forall>(v, key, w) \<in> set es. v \<in> T \<and> cost + w < c"
  shows "(\<Sum>x \<in> T. pot c (dist (relax cost current es s) x)) + length (pq (relax cost current es s))
           \<le> (\<Sum>x \<in> T. pot c (dist s x)) + length (pq s)"
  using assms(2)
proof (induction es arbitrary: s)
  case Nil
  then show ?case by simp
next
  case (Cons e es)
  obtain v key w where e: "e = (v, key, w)" by (cases e) auto
  have vT: "v \<in> T" and lt: "cost + w < c" using Cons.prems e by auto
  have rest: "\<forall>(v, key, w) \<in> set es. v \<in> T \<and> cost + w < c" using Cons.prems by auto
  let ?upd = "s\<lparr>dist := (dist s)(v \<mapsto> cost + w),
                 prev := (prev s)(v \<mapsto> (current, key)),
                 pq := heappush (pq s) (cost + w, v)\<rparr>"
  show ?case
  proof (cases "case dist s v of None \<Rightarrow> True | Some d \<Rightarrow> cost + w < d")
    case True
    have "(\<Sum>x \<in> T. pot c (dist ?upd x)) < (\<Sum>x \<in> T. pot c (dist s x))"
      using pot_lower [where d = "dist s" and v = v and n = "cost + w" and c = c and T = T]
        assms(1) vT lt True by simp
    then have "(\<Sum>x \<in> T. pot c (dist ?upd x)) + length (pq ?upd)
                 \<le> (\<Sum>x \<in> T. pot c (dist s x)) + length (pq s)"
      by (simp add: heappush_def)
    with Cons.IH [OF rest, of ?upd] True e show ?thesis
      by (simp add: Let_def)
  next
    case False
    with Cons.IH [OF rest, of s] e show ?thesis by (simp add: Let_def)
  qed
qed

text \<open>The outer loop: take a smallest pair from the queue; stop at the target format;
  skip a format whose cost has reached \<^verbatim>\<open>max_steps\<close>; otherwise go through its edges.\<close>

function search_loop :: "graph \<Rightarrow> string \<Rightarrow> int \<Rightarrow> search \<Rightarrow> search" where
  "search_loop g output_fmt max_steps s =
     (case heappop (pq s) of
        None \<Rightarrow> s
      | Some ((cost, current), rest) \<Rightarrow>
          if current = output_fmt then s\<lparr>pq := rest\<rparr>
          else if 2 * max_steps \<le> int cost
          then search_loop g output_fmt max_steps (s\<lparr>pq := rest\<rparr>)
          else search_loop g output_fmt max_steps
                 (relax cost current (adjacent g current) (s\<lparr>pq := rest\<rparr>)))"
  by pat_completeness auto
termination
proof (relation "measure (\<lambda>(g, output_fmt, max_steps, s). potential g max_steps s)")
  show "wf (measure (\<lambda>(g, output_fmt, max_steps, s). potential g max_steps s))" by simp
next
  fix g :: graph and output_fmt :: string and max_steps :: int and s :: search
    and x2 x y cost current
  assume "heappop (pq s) = Some x2" "(x, y) = x2" "(cost, current) = x"
  then have "heappop (pq s) = Some ((cost, current), y)" by simp
  from heappop_shrinks [OF this]
  show "((g, output_fmt, max_steps, s\<lparr>pq := y\<rparr>), (g, output_fmt, max_steps, s))
          \<in> measure (\<lambda>(g, output_fmt, max_steps, s). potential g max_steps s)"
    by (simp add: potential_def)
next
  fix g :: graph and output_fmt :: string and max_steps :: int and s :: search
    and x2 x y cost current
  assume pop: "heappop (pq s) = Some x2" "(x, y) = x2" "(cost, current) = x"
    and small: "\<not> 2 * max_steps \<le> int cost"
  from pop have "heappop (pq s) = Some ((cost, current), y)" by simp
  from heappop_shrinks [OF this] have len: "length (pq s) = Suc (length y)" by simp
  have edges: "\<forall>(v, key, w) \<in> set (adjacent g current). v \<in> targets g \<and> cost + w < cap g max_steps"
  proof clarify
    fix v key w assume e: "(v, key, w) \<in> set (adjacent g current)"
    have "cost < nat (2 * max_steps)" using small by linarith
    moreover have "w \<le> weight_bound g" using adjacent_weight [OF e] .
    ultimately show "v \<in> targets g \<and> cost + w < cap g max_steps"
      using adjacent_target [OF e] by (simp add: cap_def)
  qed
  from relax_potential [OF finite_targets edges, of current "s\<lparr>pq := y\<rparr>"] len
  show "((g, output_fmt, max_steps, relax cost current (adjacent g current) (s\<lparr>pq := y\<rparr>)),
          (g, output_fmt, max_steps, s))
          \<in> measure (\<lambda>(g, output_fmt, max_steps, s). potential g max_steps s)"
    by (simp add: potential_def)
qed

declare search_loop.simps [simp del]

text \<open>Rebuilding the path walks the predecessor entries back from the target format. On
  an arbitrary predecessor map the walk may meet a format with no entry (a \<^verbatim>\<open>KeyError\<close>)
  or go round for ever, so it is a partial function: \<open>None\<close> is a walk that does not end.\<close>

partial_function (option) rebuild ::
  "(string \<rightharpoonup> string \<times> string) \<Rightarrow> string \<Rightarrow> string \<Rightarrow> step list \<Rightarrow> (py_error + step list) option"
where
  "rebuild prv input_fmt current path =
     (if current = input_fmt then Some (Inr path)
      else
        (case prv current of
           None \<Rightarrow> Some (Inl KeyError)
         | Some (prev_fmt, converter_key) \<Rightarrow>
             rebuild prv input_fmt prev_fmt (path @ [(prev_fmt, current, converter_key)])))"

declare rebuild.simps [code]

definition dict_get :: "('k \<times> 'v) list \<Rightarrow> 'k \<Rightarrow> 'v option" where
  "dict_get d k = map_of d k"

definition find_conversion_path :: "manager \<Rightarrow> string \<Rightarrow> string \<Rightarrow> int \<Rightarrow> step list outcome" where
  "find_conversion_path m input_fmt0 output_fmt0 max_steps =
     (let input_fmt = lower input_fmt0;
          output_fmt = lower output_fmt0
      in if input_fmt = output_fmt then Returns []
         else
           (let direct_key = input_fmt @ ''_to_'' @ output_fmt
            in if dict_get (registry m) direct_key \<noteq> None
               then Returns [(input_fmt, output_fmt, direct_key)]
               else
                 (let s = search_loop (format_graph m) output_fmt max_steps
                            \<lparr>dist = [input_fmt \<mapsto> 0], prev = Map.empty, pq = [(0, input_fmt)]\<rparr>
                  in if prev s output_fmt = None then Returns []
                     else
                       (case rebuild (prev s) input_fmt output_fmt [] of
                          None \<Rightarrow> Diverges
                        | Some (Inl e) \<Rightarrow> Raises e
                        | Some (Inr path) \<Rightarrow> Returns (rev path)))))"

subsection \<open>Executing a path\<close>

text \<open>\<^verbatim>\<open>tempfile.NamedTemporaryFile(suffix=..., delete=False)\<close> creates a file under the
  next name the module hands out, with the suffix appended, or raises.\<close>

definition named_temporary_file :: "string \<Rightarrow> world \<Rightarrow> (py_error + string) \<times> world" where
  "named_temporary_file suffix w =
     (case temp_names w (length (temps_made w)) of
        None \<Rightarrow> (Inl (Error ''OSError''), w)
      | Some name \<Rightarrow>
          (let temp_path = name @ suffix
           in (Inr temp_path, w\<lparr>files := insert temp_path (files w),
                                   temps_made := temps_made w @ [temp_path]\<rparr>)))"

text \<open>\<^verbatim>\<open>self.registry[converter_key].convert(input, output)\<close>: a key that is not in the
  registry raises \<^verbatim>\<open>KeyError\<close> before any converter runs.\<close>

definition flag_of :: "(bool \<times> string) outcome \<Rightarrow> bool option" where
  "flag_of r = (case r of Returns (success, text) \<Rightarrow> Some success | _ \<Rightarrow> None)"

definition invoke ::
  "manager \<Rightarrow> string \<Rightarrow> string \<Rightarrow> string \<Rightarrow> world \<Rightarrow> (bool \<times> string) outcome \<times> world" where
  "invoke m converter_key input_path output_path w =
     (case dict_get (registry m) converter_key of
        None \<Rightarrow> (Raises KeyError, w)
      | Some converter \<Rightarrow>
          (let (r, fs) = convert converter input_path output_path (files w)
           in (r, w\<lparr>files := fs,
                     calls := calls w @ [(converter_key, input_path, output_path, flag_of r)]\<rparr>)))"

text \<open>The loop over all steps but the last. It ends early, with the result to return or
  the exception to raise (\<open>Inr\<close>), or hands on the input of the last step (\<open>Inl\<close>); in
  both cases with the temporary files made so far.\<close>

fun run_steps ::
  "manager \<Rightarrow> nat \<Rightarrow> step list \<Rightarrow> string \<Rightarrow> string list \<Rightarrow> world \<Rightarrow>
     (string + (bool \<times> result_text) outcome) \<times> string list \<times> world" where
  "run_steps m i [] current_input temp_files w = (Inl current_input, temp_files, w)"
| "run_steps m i ((src_fmt, dst_fmt, converter_key) # steps) current_input temp_files w =
     (case named_temporary_file (''.'' @ dst_fmt) w of
        (Inl e, w1) \<Rightarrow> (Inr (Raises e), temp_files, w1)
      | (Inr temp_path, w1) \<Rightarrow>
          (let temp_files1 = temp_files @ [temp_path]
           in case invoke m converter_key current_input temp_path w1 of
                (Returns (success, result), w2) \<Rightarrow>
                  if \<not> success
                  then (Inr (Returns (False, StepFailed (i + 1) src_fmt dst_fmt)), temp_files1, w2)
                  else run_steps m (i + 1) steps temp_path temp_files1 w2
              | (Raises e, w2) \<Rightarrow> (Inr (Raises e), temp_files1, w2)
              | (Diverges, w2) \<Rightarrow> (Inr Diverges, temp_files1, w2)))"

text \<open>The \<^verbatim>\<open>finally\<close> block: every temporary file that exists is removed; a removal
  that raises is logged and the file stays.\<close>

definition os_remove :: "string \<Rightarrow> world \<Rightarrow> py_error + world" where
  "os_remove p w =
     (if p \<in> locked w \<or> p \<notin> files w then Inl (Error ''OSError'')
      else Inr (w\<lparr>files := files w - {p}\<rparr>))"

definition cleanup :: "string list \<Rightarrow> world \<Rightarrow> world" where
  "cleanup temp_files w =
     foldl (\<lambda>w temp_path.
              if temp_path \<in> files w
              then (case os_remove temp_path w of Inl e \<Rightarrow> w | Inr w' \<Rightarrow> w')
              else w)
       w temp_files"

definition last_step ::
  "manager \<Rightarrow> step \<Rightarrow> string \<Rightarrow> string \<Rightarrow> world \<Rightarrow> (bool \<times> result_text) outcome \<times> world" where
  "last_step m st current_input output_path w =
     (case st of (src_fmt, dst_fmt, converter_key) \<Rightarrow>
        (case invoke m converter_key current_input output_path w of
           (Returns (success, result_path), w1) \<Rightarrow>
             if success then (Returns (True, Path result_path), w1)
             else (Returns (False, LastStepFailed src_fmt dst_fmt), w1)
         | (Raises e, w1) \<Rightarrow> (Raises e, w1)
         | (Diverges, w1) \<Rightarrow> (Diverges, w1)))"

definition single_step ::
  "manager \<Rightarrow> step \<Rightarrow> string \<Rightarrow> string \<Rightarrow> world \<Rightarrow> (bool \<times> result_text) outcome \<times> world" where
  "single_step m st input_path output_path w =
     (case st of (src_fmt, dst_fmt, converter_key) \<Rightarrow>
        (case invoke m converter_key input_path output_path w of
           (Returns (success, result_path), w1) \<Rightarrow>
             if success then (Returns (True, Path result_path), w1)
             else (Returns (False, ConvertFailed src_fmt dst_fmt), w1)
         | (Raises e, w1) \<Rightarrow> (Raises e, w1)
         | (Diverges, w1) \<Rightarrow> (Diverges, w1)))"

text \<open>The body of \<^verbatim>\<open>convert_with_path\<close> once the path is fixed. The \<^verbatim>\<open>finally\<close>
  block runs when the \<^verbatim>\<open>try\<close> block returns or raises; it does not run when a
  converter never returns.\<close>

definition execute_path ::
  "manager \<Rightarrow> step list \<Rightarrow> string \<Rightarrow> string \<Rightarrow> string option \<Rightarrow> string option \<Rightarrow> world \<Rightarrow>
     (bool \<times> result_text) outcome \<times> world" where
  "execute_path m path input_path output_path input_fmt output_fmt w =
     (if path = [] then (Returns (False, NoPath input_fmt output_fmt), w)
      else if length path = 1 then single_step m (hd path) input_path output_path w
      else
        (let (r, temp_files, w1) = run_steps m 0 (butlast path) input_path [] w;
             (res, w2) = (case r of
                            Inr early \<Rightarrow> (early, w1)
                          | Inl current_input \<Rightarrow> last_step m (last path) current_input output_path w1)
         in case res of
              Diverges \<Rightarrow> (Diverges, w2)
            | _ \<Rightarrow> (res, cleanup temp_files w2)))"

text \<open>\<^verbatim>\<open>convert_with_path\<close>: the path is the one given, or, when none (or an empty one) is
  given and both formats are, the one that \<^verbatim>\<open>find_conversion_path\<close> finds with its
  default of 3 steps.\<close>

definition convert_with_path ::
  "manager \<Rightarrow> string \<Rightarrow> string \<Rightarrow> step list option \<Rightarrow> string option \<Rightarrow> string option \<Rightarrow> world \<Rightarrow>
     (bool \<times> result_text) outcome \<times> world" where
  "convert_with_path m input_path output_path conversion_path input_fmt output_fmt w =
     (let given = (case conversion_path of None \<Rightarrow> [] | Some p \<Rightarrow> p);
          found = (if given = [] \<and> truthy input_fmt \<and> truthy output_fmt
                   then find_conversion_path m (case input_fmt of Some i \<Rightarrow> i | None \<Rightarrow> [])
                          (case output_fmt of Some out \<Rightarrow> out | None \<Rightarrow> []) 3
                   else Returns given)
      in case found of
           Returns path \<Rightarrow> execute_path m path input_path output_path input_fmt output_fmt w
         | Raises e \<Rightarrow> (Raises e, w)
         | Diverges \<Rightarrow> (Diverges, w))"

text \<open>\<^verbatim>\<open>convert\<close> of the manager. A format that is not given is read off the extension
  of the path. Equal formats copy the file.
  The path found is handed to \<^verbatim>\<open>convert_with_path\<close> without the two formats.\<close>

definition manager_convert ::
  "manager \<Rightarrow> string \<Rightarrow> string \<Rightarrow> string option \<Rightarrow> string option \<Rightarrow> world \<Rightarrow>
     (bool \<times> result_text) outcome \<times> world" where
  "manager_convert m input_path output_path input_fmt0 output_fmt0 w =
     (let input_fmt = lower (case input_fmt0 of
                               Some i \<Rightarrow> if i \<noteq> [] then i else lstrip_dot (lower (splitext_ext input_path))
                             | None \<Rightarrow> lstrip_dot (lower (splitext_ext input_path)));
          output_fmt = lower (case output_fmt0 of
                                Some out \<Rightarrow> if out \<noteq> [] then out else lstrip_dot (lower (splitext_ext output_path))
                              | None \<Rightarrow> lstrip_dot (lower (splitext_ext output_path)))
      in if input_fmt = output_fmt
         then (case copy2 w input_path output_path (files w) of
                 Some fs \<Rightarrow> (Returns (True, Path output_path), w\<lparr>files := fs\<rparr>)
               | None \<Rightarrow> (Returns (False, CopyFailed), w))
         else
           (case find_conversion_path m input_fmt output_fmt 3 of
              Returns path \<Rightarrow> convert_with_path m input_path output_path (Some path) None None w
            | Raises e \<Rightarrow> (Raises e, w)
            | Diverges \<Rightarrow> (Diverges, w)))"

section \<open>The worker\<close>











section \<open>Notions for the statements\<close>

subsection \<open>Paths\<close>

text \<open>A path is chained when the target format of each step is the source format of the
  next. \<open>back_chain P i v q\<close> says that \<open>q\<close> is the list of steps that the walk from the
  format \<open>v\<close> back to the format \<open>i\<close> along the predecessor entries \<open>P\<close> collects.\<close>

fun back_chain :: "(string \<rightharpoonup> string \<times> string) \<Rightarrow> string \<Rightarrow> string \<Rightarrow> step list \<Rightarrow> bool" where
  "back_chain P i v [] = (v = i)"
| "back_chain P i v ((u, v', k) # q) = (v \<noteq> i \<and> v' = v \<and> P v = Some (u, k) \<and> back_chain P i u q)"

definition chained :: "step list \<Rightarrow> bool" where
  "chained p = (map (\<lambda>(src, dst, key). dst) (butlast p) = map (\<lambda>(src, dst, key). src) (tl p))"

subsection \<open>The invariant of the search\<close>

text \<open>The input format has cost 0 and no predecessor. Every predecessor entry of a
  format \<open>v\<close> names an edge of the graph into \<open>v\<close>, from a format of smaller recorded
  cost that is the input format or has a predecessor entry itself. Every pair in the queue
  names a format with a recorded cost, not above the cost in the pair, that is the input
  format or has a predecessor entry.\<close>

definition search_inv :: "graph \<Rightarrow> string \<Rightarrow> search \<Rightarrow> bool" where
  "search_inv g i s =
     (dist s i = Some 0 \<and> prev s i = None \<and>
      (\<forall>v u k. prev s v = Some (u, k) \<longrightarrow>
         (\<exists>w. (v, k, w) \<in> set (adjacent g u)) \<and>
         (\<exists>du dv. dist s u = Some du \<and> dist s v = Some dv \<and> du < dv) \<and>
         (u = i \<or> prev s u \<noteq> None)) \<and>
      (\<forall>(c, u) \<in> set (pq s).
         (\<exists>du. dist s u = Some du \<and> du \<le> c) \<and> (u = i \<or> prev s u \<noteq> None)))"


definition pos_weights :: "graph \<Rightarrow> bool" where
  "pos_weights g = (\<forall>u. \<forall>(v, key, w) \<in> set (adjacent g u). 0 < w)"

text \<open>The edges of a graph, and the edge that \<^verbatim>\<open>_build_format_graph\<close> adds for an entry
  of the registry.\<close>

definition edges_of :: "graph \<Rightarrow> (string \<times> edge) set" where
  "edges_of g = {(u, e). \<exists>es. (u, es) \<in> set g \<and> e \<in> set es}"

definition edge_for :: "string \<times> converter \<Rightarrow> string \<times> edge" where
  "edge_for kc =
     (lower (input_format (snd kc)),
      (lower (output_format (snd kc)), fst kc,
       edge_weight (lower (input_format (snd kc))) (lower (output_format (snd kc)))))"

definition add_edge :: "graph \<Rightarrow> string \<times> converter \<Rightarrow> graph" where
  "add_edge = (\<lambda>g (key, converter).
              (let input_fmt = lower (input_format converter);
                   output_fmt = lower (output_format converter)
               in graph_append g input_fmt (output_fmt, key, edge_weight input_fmt output_fmt)))"

subsection \<open>Example converters, registries and worlds\<close>

text \<open>\<open>copy_converter\<close> converts whenever its input file exists and writes its output
  file; \<open>failing_converter\<close> always reports failure. \<open>route_registry\<close> holds four
  converters in a row, two of them between the alias formats \<^verbatim>\<open>iges\<close> and \<^verbatim>\<open>igs\<close>.\<close>

definition copy_converter :: "string \<Rightarrow> string \<Rightarrow> converter" where
  "copy_converter i out =
     \<lparr>input_format = i, output_format = out,
      convert = (\<lambda>input_path output_path fs.
                   if input_path \<in> fs then (Returns (True, output_path), insert output_path fs)
                   else (Returns (False, ''no input file''), fs))\<rparr>"

definition failing_converter :: "string \<Rightarrow> string \<Rightarrow> converter" where
  "failing_converter i out =
     \<lparr>input_format = i, output_format = out,
      convert = (\<lambda>input_path output_path fs. (Returns (False, ''conversion failed''), fs))\<rparr>"

definition route_registry :: registry where
  "route_registry =
     load_converters [copy_converter ''DXF'' ''iges'', copy_converter ''iges'' ''igs'',
                      copy_converter ''igs'' ''step'', copy_converter ''step'' ''stl'']"



text \<open>A world with one input file, in which temporary files are named
  \<^verbatim>\<open>/tmp/tmp0\<close>, \<^verbatim>\<open>/tmp/tmp1\<close> and so on, every file can be removed and a copy
  succeeds when its source exists.\<close>

definition demo_world :: world where
  "demo_world =
     \<lparr>files = {''/data/part.dxf''}, locked = {},
      temp_names = (\<lambda>n. Some (''/tmp/tmp'' @ str_nat n)),
      copy2 = (\<lambda>src dst fs. if src \<in> fs then Some (insert dst fs) else None),
      temps_made = [], calls = []\<rparr>"

text \<open>\<open>locked_world\<close> is the same world, except that the operating system refuses to
  remove the first temporary file. In \<open>faulty_registry\<close> the second of three converters
  in a row fails, in \<open>last_fails_registry\<close> the second of two.\<close>

definition locked_world :: world where
  "locked_world = demo_world\<lparr>locked := {''/tmp/tmp0.iges''}\<rparr>"

definition faulty_registry :: registry where
  "faulty_registry =
     load_converters [copy_converter ''dxf'' ''iges'', failing_converter ''iges'' ''igs'',
                      copy_converter ''igs'' ''step'']"

definition last_fails_registry :: registry where
  "last_fails_registry =
     load_converters [copy_converter ''dxf'' ''iges'', failing_converter ''iges'' ''igs'']"

subsection \<open>What a call leaves in the logs\<close>

text \<open>The converter calls and the temporary files that a run from the world \<open>w\<close> to the
  world \<open>w'\<close> has added to the logs; the key and the flag of a logged call; the key of a
  step. \<open>failure_of path k\<close> is the message for a failure of the step at position \<open>k\<close>
  (counted from 0) of a path of several steps: the number \<open>k + 1\<close> and the two formats for
  every step but the last, the two formats alone for the last.\<close>

type_synonym call = "string \<times> string \<times> string \<times> bool option"

definition calls_since :: "world \<Rightarrow> world \<Rightarrow> call list" where
  "calls_since w w' = drop (length (calls w)) (calls w')"

definition temps_since :: "world \<Rightarrow> world \<Rightarrow> string list" where
  "temps_since w w' = drop (length (temps_made w)) (temps_made w')"

definition call_key :: "call \<Rightarrow> string" where
  "call_key c = fst c"

definition call_flag :: "call \<Rightarrow> bool option" where
  "call_flag c = snd (snd (snd c))"

definition step_key :: "step \<Rightarrow> string" where
  "step_key st = snd (snd st)"

definition failure_of :: "step list \<Rightarrow> nat \<Rightarrow> result_text" where
  "failure_of path k =
     (if Suc k < length path then StepFailed (Suc k) (fst (path ! k)) (fst (snd (path ! k)))
      else LastStepFailed (fst (path ! k)) (fst (snd (path ! k))))"

section \<open>Properties of the task store\<close>

lemma str_nat_small [simp]: "n < 10 \<Longrightarrow> str_nat n = [digit_of n]"
  by (simp add: str_nat.simps)

lemma task_key_inj [simp]: "(task_key a = task_key b) = (a = b)"
  by (simp add: task_key_def)

lemma hget_hset_same:
  "hget (hset r now k m) now k f = (case m f of Some v \<Rightarrow> Some v | None \<Rightarrow> hget r now k f)"
  by (auto simp: hget_def hset_def live_def map_add_def split: option.splits)

lemma hget_hset_other:
  "k' \<noteq> k \<Longrightarrow> hget (hset r now k m) now k' f = hget r now k' f"
  by (auto simp: hget_def hset_def live_def split: option.splits)

lemma claim_fst:
  "fst (claim_task_with_lua r now t) = (hget r now (task_key t) ''status'' = Some ''QUEUED'')"
  by (simp add: claim_task_with_lua_def Let_def)

lemma claim_status_after:
  "hget (snd (claim_task_with_lua r now t)) now (task_key t') ''status'' =
     (if t' = t \<and> hget r now (task_key t) ''status'' = Some ''QUEUED'' then Some ''PROCESSING''
      else hget r now (task_key t') ''status'')"
  by (auto simp: claim_task_with_lua_def Let_def hget_hset_same hget_hset_other)

lemma winners_Cons:
  "winners t (t' # ts) (b # bs) = (if t' = t \<and> b then 1 else 0) + winners t ts bs"
  by (simp add: winners_def)

lemma no_winner:
  "hget r now (task_key t) ''status'' \<noteq> Some ''QUEUED'' \<Longrightarrow>
   winners t ts (fst (claim_all r now ts)) = 0"
proof (induction ts arbitrary: r)
  case Nil
  then show ?case by (simp add: winners_def)
next
  case (Cons a ts)
  obtain b r1 where c: "claim_task_with_lua r now a = (b, r1)" by force
  have st: "hget r1 now (task_key t) ''status'' \<noteq> Some ''QUEUED''"
    using claim_status_after [of r now a t] c Cons.prems by (auto split: if_splits)
  have b: "a = t \<Longrightarrow> \<not> b"
    using claim_fst [of r now a] c Cons.prems by auto
  show ?case
    using Cons.IH [OF st] b c by (auto simp: winners_Cons split: prod.splits)
qed

lemma one_winner:
  "hget r now (task_key t) ''status'' = Some ''QUEUED'' \<Longrightarrow> t \<in> set ts \<Longrightarrow>
   winners t ts (fst (claim_all r now ts)) = 1"
proof (induction ts arbitrary: r)
  case Nil
  then show ?case by simp
next
  case (Cons a ts)
  obtain b r1 where c: "claim_task_with_lua r now a = (b, r1)" by force
  show ?case
  proof (cases "a = t")
    case True
    have "b" using claim_fst [of r now a] c Cons.prems(1) True by simp
    moreover have "hget r1 now (task_key t) ''status'' \<noteq> Some ''QUEUED''"
      using claim_status_after [of r now a t] c Cons.prems(1) True by simp
    ultimately show ?thesis
      using no_winner [of r1 now t ts] c True by (auto simp: winners_Cons split: prod.splits)
  next
    case False
    have st: "hget r1 now (task_key t) ''status'' = Some ''QUEUED''"
      using claim_status_after [of r now a t] c Cons.prems(1) False by auto
    have "t \<in> set ts" using Cons.prems(2) False by simp
    from Cons.IH [OF st this] show ?thesis
      using c False by (auto simp: winners_Cons split: prod.splits)
  qed
qed

lemmas store_eval = create_task_def generate_task_id_def incr_def flushdb_def Let_def digit_of_def
      hget_def hgetall_def hset_def expire_def live_def task_key_def exists_key_def
      update_task_status_def get_task_status_def lpush_def

subsection \<open>Claiming a task\<close>

text \<open>
  C1. The claim is one read-modify-write step of the store: it answers \<open>True\<close> exactly
  when the status it reads is \<^verbatim>\<open>QUEUED\<close>, and then writes \<^verbatim>\<open>PROCESSING\<close>; it answers
  \<open>False\<close> and leaves the store as it is for any other status and for a record that is
  missing or has expired. Of the attempts that any number of callers make on one queued
  task, in whatever order the store takes them and mixed with attempts on other tasks,
  exactly one is answered \<open>True\<close>.
\<close>

theorem claim_compare_and_set:
  "fst (claim_task_with_lua r now t) = (hget r now (task_key t) ''status'' = Some ''QUEUED'')
   \<and> (hget r now (task_key t) ''status'' = Some ''QUEUED'' \<longrightarrow>
        hget (snd (claim_task_with_lua r now t)) now (task_key t) ''status'' = Some ''PROCESSING'')
   \<and> (hget r now (task_key t) ''status'' \<noteq> Some ''QUEUED'' \<longrightarrow>
        claim_task_with_lua r now t = (False, r))
   \<and> (\<not> exists_key r now (task_key t) \<longrightarrow> claim_task_with_lua r now t = (False, r))
   \<and> (hget r now (task_key t) ''status'' = Some ''QUEUED'' \<and> t \<in> set ts \<longrightarrow>
        winners t ts (fst (claim_all r now ts)) = 1)"
proof -
  have "\<not> exists_key r now (task_key t) \<Longrightarrow> hget r now (task_key t) ''status'' = None"
    by (simp add: exists_key_def hget_def)
  then show ?thesis
    using claim_fst [of r now t] claim_status_after [of r now t t] one_winner [of r now t ts]
    by (auto simp: claim_task_with_lua_def Let_def)
qed

text \<open>The same on the store with one queued task: a claim at instant 10 wins, a claim of an
  unknown task and a claim after the record expired (instant 300) do not, and of two
  attempts on the task one wins.\<close>

theorem claim_compare_and_set_witness:
  "fst (claim_task_with_lua demo_store 10 ''0-1-b5e4830d'')
   \<and> hget (snd (claim_task_with_lua demo_store 10 ''0-1-b5e4830d'')) 10
        (task_key ''0-1-b5e4830d'') ''status'' = Some ''PROCESSING''
   \<and> claim_task_with_lua demo_store 10 ''0-2-ffffffff'' = (False, demo_store)
   \<and> claim_task_with_lua demo_store 300 ''0-1-b5e4830d'' = (False, demo_store)
   \<and> winners ''0-1-b5e4830d'' [''0-1-b5e4830d'', ''0-2-ffffffff'', ''0-1-b5e4830d'']
        (fst (claim_all demo_store 10 [''0-1-b5e4830d'', ''0-2-ffffffff'', ''0-1-b5e4830d''])) = 1"
proof -
  have q: "hget demo_store 10 (task_key ''0-1-b5e4830d'') ''status'' = Some ''QUEUED''"
    by (simp add: demo_store_def store_eval)
  have n: "\<not> exists_key demo_store 10 (task_key ''0-2-ffffffff'')"
    by (simp add: demo_store_def store_eval)
  have e: "\<not> exists_key demo_store 300 (task_key ''0-1-b5e4830d'')"
    by (simp add: demo_store_def store_eval)
  show ?thesis
    using claim_compare_and_set [of demo_store 10 "''0-1-b5e4830d''"
            "[''0-1-b5e4830d'', ''0-2-ffffffff'', ''0-1-b5e4830d'']"]
          claim_compare_and_set [of demo_store 10 "''0-2-ffffffff''" "[]"]
          claim_compare_and_set [of demo_store 300 "''0-1-b5e4830d''" "[]"]
          q n e
    by simp
qed


subsection \<open>Updating a status\<close>

text \<open>
  The record created at instant 0 expires at instant 300. An update at instant 100 finds
  it and succeeds, and the expiry instant is still 300 afterwards: at instant 300 the
  record is gone, although a lifetime renewed by the update would have lasted until 400.
\<close>

theorem update_ttl_counterexample:
  "exists_key demo_store 100 (task_key ''0-1-b5e4830d'')
   \<and> (case update_task_status demo_store 100 100 ''100.5'' ''0-1-b5e4830d'' ''PROCESSING'' Map.empty of
         Inr (ok, r') \<Rightarrow>
           ok \<and> map_option expires_at (hashes r' (task_key ''0-1-b5e4830d'')) = Some (Some 300)
              \<and> exists_key r' 299 (task_key ''0-1-b5e4830d'')
              \<and> \<not> exists_key r' 300 (task_key ''0-1-b5e4830d'')
       | Inl e \<Rightarrow> False)"
  by (simp add: demo_store_def store_eval)

text \<open>
  C9, as the code has it. The additional fields are any fields other than \<^verbatim>\<open>task_id\<close>
  and \<^verbatim>\<open>status\<close>, which are parameters of the function. On a record that exists when
  the call checks it and when the call writes, \<^verbatim>\<open>update_task_status\<close> answers \<open>True\<close>,
  merges the status, the reading of the clock and the additional fields into the record
  (an additional field wins over a field of the same name) and leaves the expiry instant
  of the record as it was. On a record that does not exist, or has expired, when the call
  checks it, it answers \<open>False\<close>, raises nothing and leaves the store as it is.
\<close>

theorem update_merges_keeps_expiry:
  "(info ''task_id'' = None \<and> info ''status'' = None
      \<and> exists_key r t_exists (task_key t) \<and> exists_key r t_hset (task_key t) \<longrightarrow>
      (\<exists>r'. update_task_status r t_exists t_hset stamp t status info = Inr (True, r')
         \<and> hgetall r' t_hset (task_key t)
             = hgetall r t_hset (task_key t) ++ [''status'' \<mapsto> status, ''updated_at'' \<mapsto> stamp] ++ info
         \<and> map_option expires_at (hashes r' (task_key t))
             = map_option expires_at (hashes r (task_key t))
         \<and> hget r' t_hset (task_key t) ''status'' = Some status
         \<and> (''updated_at'' \<notin> dom info \<longrightarrow>
               hget r' t_hset (task_key t) ''updated_at'' = Some stamp)))
   \<and> (info ''task_id'' = None \<and> info ''status'' = None
        \<and> \<not> exists_key r t_exists (task_key t) \<longrightarrow>
        update_task_status r t_exists t_hset stamp t status info = Inr (False, r))"
  by (auto simp: update_task_status_def exists_key_def hgetall_def hget_def hset_def live_def
        Let_def map_add_def split: option.splits if_splits)

theorem update_merges_keeps_expiry_witness:
  "(\<exists>r'. update_task_status demo_store 100 101 ''100.5'' ''0-1-b5e4830d'' ''FAILED''
            [''error'' \<mapsto> ''boom''] = Inr (True, r')
      \<and> hget r' 101 (task_key ''0-1-b5e4830d'') ''status'' = Some ''FAILED''
      \<and> hget r' 101 (task_key ''0-1-b5e4830d'') ''updated_at'' = Some ''100.5''
      \<and> hget r' 101 (task_key ''0-1-b5e4830d'') ''error'' = Some ''boom''
      \<and> hget r' 101 (task_key ''0-1-b5e4830d'') ''input_file'' = Some ''https://r2/model.step''
      \<and> map_option expires_at (hashes r' (task_key ''0-1-b5e4830d'')) = Some (Some 300))
   \<and> update_task_status demo_store 300 301 ''300.5'' ''0-1-b5e4830d'' ''FAILED'' [''error'' \<mapsto> ''boom'']
        = Inr (False, demo_store)"
proof -
  have l: "exists_key demo_store 100 (task_key ''0-1-b5e4830d'')"
          "exists_key demo_store 101 (task_key ''0-1-b5e4830d'')"
    by (simp_all add: demo_store_def store_eval)
  have e: "\<not> exists_key demo_store 300 (task_key ''0-1-b5e4830d'')"
    by (simp add: demo_store_def store_eval)
  have x: "map_option expires_at (hashes demo_store (task_key ''0-1-b5e4830d'')) = Some (Some 300)"
    by (simp add: demo_store_def store_eval)
  have g: "hgetall demo_store 101 (task_key ''0-1-b5e4830d'') ''input_file'' = Some ''https://r2/model.step''"
    by (simp add: demo_store_def store_eval)
  have i: "[''error'' \<mapsto> ''boom''] ''task_id'' = None" "[''error'' \<mapsto> ''boom''] ''status'' = None"
          "''updated_at'' \<notin> dom [''error'' \<mapsto> ''boom'']"
    by simp_all
  obtain r' where r': "update_task_status demo_store 100 101 ''100.5'' ''0-1-b5e4830d'' ''FAILED''
            [''error'' \<mapsto> ''boom''] = Inr (True, r')"
      and a: "hgetall r' 101 (task_key ''0-1-b5e4830d'')
             = hgetall demo_store 101 (task_key ''0-1-b5e4830d'')
                 ++ [''status'' \<mapsto> ''FAILED'', ''updated_at'' \<mapsto> ''100.5''] ++ [''error'' \<mapsto> ''boom'']"
      and b: "map_option expires_at (hashes r' (task_key ''0-1-b5e4830d''))
             = map_option expires_at (hashes demo_store (task_key ''0-1-b5e4830d''))"
      and c: "hget r' 101 (task_key ''0-1-b5e4830d'') ''status'' = Some ''FAILED''"
      and d: "hget r' 101 (task_key ''0-1-b5e4830d'') ''updated_at'' = Some ''100.5''"
    using update_merges_keeps_expiry [of "[''error'' \<mapsto> ''boom'']" demo_store 100 "''0-1-b5e4830d''" 101
            "''100.5''" "''FAILED''"] l i
    by auto
  have h: "hget r' 101 (task_key ''0-1-b5e4830d'') f = hgetall r' 101 (task_key ''0-1-b5e4830d'') f" for f
    by (simp add: hget_def hgetall_def split: option.splits)
  have f1: "hget r' 101 (task_key ''0-1-b5e4830d'') ''error'' = Some ''boom''"
    unfolding h a by simp
  have f2: "hget r' 101 (task_key ''0-1-b5e4830d'') ''input_file'' = Some ''https://r2/model.step''"
    unfolding h a using g by (simp add: map_add_def)
  have n: "update_task_status demo_store 300 301 ''300.5'' ''0-1-b5e4830d'' ''FAILED'' [''error'' \<mapsto> ''boom'']
        = Inr (False, demo_store)"
    using update_merges_keeps_expiry [of "[''error'' \<mapsto> ''boom'']" demo_store 300 "''0-1-b5e4830d''" 301
            "''300.5''" "''FAILED''"] e i
    by simp
  show ?thesis using r' b c d f1 f2 n x by simp
qed

text \<open>The existence check and the write are two commands. When the record expires
  between them (here the check at instant 299, the write at instant 300), the call
  answers \<open>True\<close> and the write creates a new hash that holds the update alone and has
  no expiry.\<close>

lemma update_between_expiry:
  "(case update_task_status demo_store 299 300 ''299.9'' ''0-1-b5e4830d'' ''FAILED'' [''error'' \<mapsto> ''boom''] of
      Inr (ok, r') \<Rightarrow>
        ok \<and> map_option expires_at (hashes r' (task_key ''0-1-b5e4830d'')) = Some None
           \<and> hget r' 300 (task_key ''0-1-b5e4830d'') ''input_file'' = None
           \<and> hget r' 300 (task_key ''0-1-b5e4830d'') ''status'' = Some ''FAILED''
    | Inl e \<Rightarrow> False)"
  by (simp add: demo_store_def store_eval)

lemma update_reserved_field:
  "update_task_status r t_exists t_hset stamp t status [''status'' \<mapsto> s] = Inl TypeError"
  by (simp add: update_task_status_def)

subsection \<open>Requeueing\<close>

text \<open>
  C3 does not hold of the code. \<^verbatim>\<open>config.py\<close> sets \<^verbatim>\<open>MAX_RETRIES\<close> to 3 (``at most
  3 retries''), and \<^verbatim>\<open>requeue_task\<close> is documented as the retry after a failure, but the
  function reads neither the ceiling nor the status. In the store below the task is
  \<^verbatim>\<open>COMPLETED\<close> and has three retries on record; \<^verbatim>\<open>requeue_task\<close> answers \<open>True\<close>, puts
  the record back to \<^verbatim>\<open>QUEUED\<close> with a fourth retry and pushes the task on the queue.
\<close>

theorem requeue_ignores_ceiling:
  "hget done_store 60 (task_key ''0-1-b5e4830d'') ''status'' = Some ''COMPLETED''
   \<and> hget done_store 60 (task_key ''0-1-b5e4830d'') ''retry_count'' = Some ''3''
   \<and> (case requeue_task done_store 60 60 61 61 ''61.5'' ''0-1-b5e4830d'' of
         Inr (ok, r') \<Rightarrow>
           ok \<and> hget r' 61 (task_key ''0-1-b5e4830d'') ''status'' = Some ''QUEUED''
              \<and> hget r' 61 (task_key ''0-1-b5e4830d'') ''retry_count'' = Some ''4''
              \<and> task_queue r' = [\<lparr>td_id = ''0-1-b5e4830d'', td_input_file = ''https://r2/model.step'',
                                    td_output_format = ''stl'', td_retry = True\<rparr>]
       | Inl e \<Rightarrow> False)"
proof -
  have s: "py_str 4 = ''4''" by code_simp
  have p: "py_int ''3'' = Some 3" by code_simp
  show ?thesis
    by (simp add: done_store_def demo_store_def requeue_task_def store_eval s p)
qed

section \<open>Properties of the converter manager\<close>

subsection \<open>The search keeps its invariant\<close>

lemma search_inv_dist0: "search_inv g i s \<Longrightarrow> dist s i = Some 0"
  by (simp add: search_inv_def)

lemma search_inv_prev0: "search_inv g i s \<Longrightarrow> prev s i = None"
  by (simp add: search_inv_def)

lemma search_inv_prev_all:
  assumes "search_inv g i s" "prev s v = Some (u, k)"
  shows "(\<exists>w. (v, k, w) \<in> set (adjacent g u)) \<and>
         (\<exists>du dv. dist s u = Some du \<and> dist s v = Some dv \<and> du < dv) \<and>
         (u = i \<or> prev s u \<noteq> None)"
proof -
  from assms(1) have h: "\<forall>v u k. prev s v = Some (u, k) \<longrightarrow>
         (\<exists>w. (v, k, w) \<in> set (adjacent g u)) \<and>
         (\<exists>du dv. dist s u = Some du \<and> dist s v = Some dv \<and> du < dv) \<and>
         (u = i \<or> prev s u \<noteq> None)"
    unfolding search_inv_def by (elim conjE)
  show ?thesis by (rule h [rule_format, OF assms(2)])
qed

lemma search_inv_pq_all:
  assumes "search_inv g i s" "(c, u) \<in> set (pq s)"
  shows "(\<exists>du. dist s u = Some du \<and> du \<le> c) \<and> (u = i \<or> prev s u \<noteq> None)"
proof -
  from assms(1) have h: "\<forall>(c, u) \<in> set (pq s).
         (\<exists>du. dist s u = Some du \<and> du \<le> c) \<and> (u = i \<or> prev s u \<noteq> None)"
    unfolding search_inv_def by (elim conjE)
  from bspec [OF h assms(2)] show ?thesis by (simp only: prod.case)
qed

lemma search_invI:
  assumes "dist s i = Some 0" "prev s i = None"
    and "\<And>v u k. prev s v = Some (u, k) \<Longrightarrow>
         (\<exists>w. (v, k, w) \<in> set (adjacent g u)) \<and>
         (\<exists>du dv. dist s u = Some du \<and> dist s v = Some dv \<and> du < dv) \<and>
         (u = i \<or> prev s u \<noteq> None)"
    and "\<And>c u. (c, u) \<in> set (pq s) \<Longrightarrow>
         (\<exists>du. dist s u = Some du \<and> du \<le> c) \<and> (u = i \<or> prev s u \<noteq> None)"
  shows "search_inv g i s"
proof -
  have 3: "\<forall>v u k. prev s v = Some (u, k) \<longrightarrow>
         (\<exists>w. (v, k, w) \<in> set (adjacent g u)) \<and>
         (\<exists>du dv. dist s u = Some du \<and> dist s v = Some dv \<and> du < dv) \<and>
         (u = i \<or> prev s u \<noteq> None)"
  proof (intro allI impI)
    fix v u k assume "prev s v = Some (u, k)"
    then show "(\<exists>w. (v, k, w) \<in> set (adjacent g u)) \<and>
         (\<exists>du dv. dist s u = Some du \<and> dist s v = Some dv \<and> du < dv) \<and>
         (u = i \<or> prev s u \<noteq> None)" by (rule assms(3))
  qed
  have 4: "\<forall>(c, u) \<in> set (pq s).
         (\<exists>du. dist s u = Some du \<and> du \<le> c) \<and> (u = i \<or> prev s u \<noteq> None)"
  proof (rule ballI)
    fix x assume x: "x \<in> set (pq s)"
    obtain c u where cu: "x = (c, u)" by (cases x)
    have "(\<exists>du. dist s u = Some du \<and> du \<le> c) \<and> (u = i \<or> prev s u \<noteq> None)"
      using x cu by (intro assms(4)) simp
    then show "case x of (c, u) \<Rightarrow>
         (\<exists>du. dist s u = Some du \<and> du \<le> c) \<and> (u = i \<or> prev s u \<noteq> None)"
      unfolding cu by (simp only: prod.case)
  qed
  show ?thesis
    unfolding search_inv_def using assms(1,2) 3 4 by (intro conjI)
qed


lemma relax_step_inv:
  assumes inv: "search_inv g i s"
    and cur: "dist s cur = Some d" "d \<le> cost" "cur = i \<or> prev s cur \<noteq> None"
    and e: "(v, key, w) \<in> set (adjacent g cur)" "0 < w"
    and upd: "case dist s v of None \<Rightarrow> True | Some x \<Rightarrow> cost + w < x"
  shows "search_inv g i (s\<lparr>dist := (dist s)(v \<mapsto> cost + w),
                            prev := (prev s)(v \<mapsto> (cur, key)),
                            pq := heappush (pq s) (cost + w, v)\<rparr>)
         \<and> v \<noteq> cur"
proof -
  have vc: "v \<noteq> cur" using cur(1,2) upd by auto
  have vi: "v \<noteq> i" using search_inv_dist0 [OF inv] upd by auto
  let ?s = "s\<lparr>dist := (dist s)(v \<mapsto> cost + w), prev := (prev s)(v \<mapsto> (cur, key)),
               pq := heappush (pq s) (cost + w, v)\<rparr>"
  have 1: "dist ?s i = Some 0" "prev ?s i = None"
    using search_inv_dist0 [OF inv] search_inv_prev0 [OF inv] vi by simp_all
  have 2: "(\<exists>w. (x, k, w) \<in> set (adjacent g u)) \<and>
           (\<exists>du dv. dist ?s u = Some du \<and> dist ?s x = Some dv \<and> du < dv) \<and>
           (u = i \<or> prev ?s u \<noteq> None)" if p: "prev ?s x = Some (u, k)" for x u k
  proof (cases "x = v")
    case True
    then have "u = cur" "k = key" using p by simp_all
    then show ?thesis using True e cur vc by auto
  next
    case False
    then have p': "prev s x = Some (u, k)" using p by simp
    from search_inv_prev_all [OF inv p']
    have a: "\<exists>w. (x, k, w) \<in> set (adjacent g u)"
      and b: "\<exists>du dv. dist s u = Some du \<and> dist s x = Some dv \<and> du < dv"
      and c: "u = i \<or> prev s u \<noteq> None" by simp_all
    from b obtain du dv where d: "dist s u = Some du" "dist s x = Some dv" "du < dv" by blast
    have "\<exists>du dv. dist ?s u = Some du \<and> dist ?s x = Some dv \<and> du < dv"
    proof (cases "u = v")
      case True
      then have "cost + w < du" using upd d(1) by simp
      then show ?thesis using True False d by simp
    next
      case False
      then show ?thesis using \<open>x \<noteq> v\<close> d by simp
    qed
    moreover have "u = i \<or> prev ?s u \<noteq> None" using c by auto
    ultimately show ?thesis using a by blast
  qed
  have 3: "(\<exists>du. dist ?s u = Some du \<and> du \<le> c) \<and> (u = i \<or> prev ?s u \<noteq> None)"
    if m: "(c, u) \<in> set (pq ?s)" for c u
  proof (cases "(c, u) \<in> set (pq s)")
    case True
    from search_inv_pq_all [OF inv True]
    have a: "\<exists>du. dist s u = Some du \<and> du \<le> c" and b: "u = i \<or> prev s u \<noteq> None"
      by simp_all
    from a obtain du where d: "dist s u = Some du" "du \<le> c" by blast
    show ?thesis
    proof (cases "u = v")
      case True
      then have "cost + w < du" using upd d(1) by simp
      then show ?thesis using True d by simp
    next
      case False
      then show ?thesis using d b by auto
    qed
  next
    case False
    then have "c = cost + w" "u = v" using m by (simp_all add: heappush_def)
    then show ?thesis by simp
  qed
  have "search_inv g i ?s"
    by (rule search_invI [OF 1]) (erule 2, erule 3)
  then show ?thesis using vc by simp
qed


lemma relax_inv:
  assumes "search_inv g i s"
    and "dist s cur = Some d" "d \<le> cost" "cur = i \<or> prev s cur \<noteq> None"
    and "\<forall>(v, key, w) \<in> set es. (v, key, w) \<in> set (adjacent g cur) \<and> 0 < w"
  shows "search_inv g i (relax cost cur es s)"
  using assms
proof (induction es arbitrary: s)
  case Nil
  then show ?case by simp
next
  case (Cons e es)
  obtain v key w where e: "e = (v, key, w)" by (cases e) auto
  have ed: "(v, key, w) \<in> set (adjacent g cur)" "0 < w" using Cons.prems(5) e by auto
  have rest: "\<forall>(v, key, w) \<in> set es. (v, key, w) \<in> set (adjacent g cur) \<and> 0 < w"
    using Cons.prems(5) by simp
  show ?case
  proof (cases "case dist s v of None \<Rightarrow> True | Some x \<Rightarrow> cost + w < x")
    case True
    let ?s = "s\<lparr>dist := (dist s)(v \<mapsto> cost + w), prev := (prev s)(v \<mapsto> (cur, key)),
                 pq := heappush (pq s) (cost + w, v)\<rparr>"
    from relax_step_inv [OF Cons.prems(1-4) ed True]
    have inv: "search_inv g i ?s" and vc: "v \<noteq> cur" by simp_all
    have d': "dist ?s cur = Some d" using vc Cons.prems(2) by simp
    have p': "cur = i \<or> prev ?s cur \<noteq> None" using vc Cons.prems(4) by simp
    have "search_inv g i (relax cost cur es ?s)"
      by (rule Cons.IH [OF inv d' Cons.prems(3) p' rest])
    then show ?thesis using e True by (simp add: Let_def)
  next
    case False
    have "search_inv g i (relax cost cur es s)"
      by (rule Cons.IH [OF Cons.prems(1-4) rest])
    then show ?thesis using e False by (simp add: Let_def)
  qed
qed

lemma pop_inv:
  assumes "search_inv g i s" "set rest \<subseteq> set (pq s)"
  shows "search_inv g i (s\<lparr>pq := rest\<rparr>)"
proof (rule search_invI)
  show "dist (s\<lparr>pq := rest\<rparr>) i = Some 0" using search_inv_dist0 [OF assms(1)] by simp
  show "prev (s\<lparr>pq := rest\<rparr>) i = None" using search_inv_prev0 [OF assms(1)] by simp
next
  fix v u k assume "prev (s\<lparr>pq := rest\<rparr>) v = Some (u, k)"
  then have "prev s v = Some (u, k)" by simp
  from search_inv_prev_all [OF assms(1) this]
  show "(\<exists>w. (v, k, w) \<in> set (adjacent g u)) \<and>
        (\<exists>du dv. dist (s\<lparr>pq := rest\<rparr>) u = Some du \<and> dist (s\<lparr>pq := rest\<rparr>) v = Some dv \<and> du < dv) \<and>
        (u = i \<or> prev (s\<lparr>pq := rest\<rparr>) u \<noteq> None)" by simp
next
  fix c u assume "(c, u) \<in> set (pq (s\<lparr>pq := rest\<rparr>))"
  then have "(c, u) \<in> set (pq s)" using assms(2) by auto
  from search_inv_pq_all [OF assms(1) this]
  show "(\<exists>du. dist (s\<lparr>pq := rest\<rparr>) u = Some du \<and> du \<le> c) \<and>
        (u = i \<or> prev (s\<lparr>pq := rest\<rparr>) u \<noteq> None)" by simp
qed

lemma search_loop_inv:
  "pos_weights g \<Longrightarrow> search_inv g i s \<Longrightarrow> search_inv g i (search_loop g output_fmt max_steps s)"
proof (induction g output_fmt max_steps s rule: search_loop.induct)
  case (1 g output_fmt max_steps s)
  show ?case
  proof (cases "heappop (pq s)")
    case None
    then show ?thesis using "1.prems"(2) by (simp add: search_loop.simps [of g output_fmt max_steps s])
  next
    case (Some a)
    obtain cost current rest where a: "a = ((cost, current), rest)" by (cases a) auto
    have pop: "heappop (pq s) = Some ((cost, current), rest)" using Some a by simp
    from heappop_shrinks [OF pop]
    have mem: "(cost, current) \<in> set (pq s)" and r: "rest = remove1 (cost, current) (pq s)" by simp_all
    have sub: "set rest \<subseteq> set (pq s)" unfolding r by (rule set_remove1_subset)
    have inv': "search_inv g i (s\<lparr>pq := rest\<rparr>)" using pop_inv [OF "1.prems"(2) sub] .
    from search_inv_pq_all [OF "1.prems"(2) mem]
    obtain d where d: "dist s current = Some d" "d \<le> cost"
      and pc: "current = i \<or> prev s current \<noteq> None" by blast
    show ?thesis
    proof (cases "current = output_fmt")
      case True
      then show ?thesis using pop inv'
        by (simp add: search_loop.simps [of g output_fmt max_steps s])
    next
      case False
      show ?thesis
      proof (cases "2 * max_steps \<le> int cost")
        case True
        have "search_inv g i (search_loop g output_fmt max_steps (s\<lparr>pq := rest\<rparr>))"
          using "1.IH"(1) [OF Some a [symmetric] refl False True "1.prems"(1) inv'] .
        then show ?thesis using pop False True
          by (simp add: search_loop.simps [of g output_fmt max_steps s])
      next
        case big: False
        have edges: "\<forall>(v, key, w) \<in> set (adjacent g current).
                        (v, key, w) \<in> set (adjacent g current) \<and> 0 < w"
          using "1.prems"(1) unfolding pos_weights_def by blast
        have d': "dist (s\<lparr>pq := rest\<rparr>) current = Some d" using d(1) by simp
        have pc': "current = i \<or> prev (s\<lparr>pq := rest\<rparr>) current \<noteq> None" using pc by simp
        have "search_inv g i (relax cost current (adjacent g current) (s\<lparr>pq := rest\<rparr>))"
          by (rule relax_inv [OF inv' d' d(2) pc' edges])
        from "1.IH"(2) [OF Some a [symmetric] refl False big "1.prems"(1) this]
        show ?thesis using pop False big
          by (simp add: search_loop.simps [of g output_fmt max_steps s])
      qed
    qed
  qed
qed


subsection \<open>Rebuilding the path\<close>

lemma rebuild_total:
  fixes D :: "string \<rightharpoonup> nat"
  assumes wf: "\<And>v u k. P v = Some (u, k) \<Longrightarrow>
             (\<exists>du dv. D u = Some du \<and> D v = Some dv \<and> du < dv) \<and> (u = i \<or> P u \<noteq> None)"
    and start: "cur = i \<or> P cur \<noteq> None"
  shows "\<exists>q. rebuild P i cur acc = Some (Inr (acc @ q)) \<and> back_chain P i cur q"
  using start
proof (induction "the (D cur)" arbitrary: cur acc rule: less_induct)
  case less
  show ?case
  proof (cases "cur = i")
    case True
    have "rebuild P i cur acc = Some (Inr (acc @ []))"
      using True by (subst rebuild.simps) simp
    moreover have "back_chain P i cur []" using True by simp
    ultimately show ?thesis by blast
  next
    case False
    with less.prems obtain u k where p: "P cur = Some (u, k)" by auto
    from wf [OF p] obtain du dv where d: "D u = Some du" "D cur = Some dv" "du < dv"
      and nxt: "u = i \<or> P u \<noteq> None" by blast
    have lt: "the (D u) < the (D cur)" using d by simp
    from less.hyps [OF lt nxt, of "acc @ [(u, cur, k)]"]
    obtain q where q: "rebuild P i u (acc @ [(u, cur, k)]) = Some (Inr ((acc @ [(u, cur, k)]) @ q))"
      and bc: "back_chain P i u q" by blast
    have "rebuild P i cur acc = Some (Inr (acc @ ((u, cur, k) # q)))"
      using False p q by (subst rebuild.simps) simp
    moreover have "back_chain P i cur ((u, cur, k) # q)" using False p bc by simp
    ultimately show ?thesis by blast
  qed
qed

lemma back_chain_keys:
  "back_chain P i v q \<Longrightarrow> (src, dst, key) \<in> set q \<Longrightarrow> P dst = Some (src, key)"
  by (induction P i v q rule: back_chain.induct) auto

lemma back_chain_hd:
  "back_chain P i v q \<Longrightarrow> q \<noteq> [] \<Longrightarrow> fst (snd (hd q)) = v"
  by (cases q) auto

lemma back_chain_last:
  "back_chain P i v q \<Longrightarrow> q \<noteq> [] \<Longrightarrow> fst (last q) = i"
proof (induction P i v q rule: back_chain.induct)
  case (1 P i v)
  then show ?case by simp
next
  case (2 P i v u v' k q)
  then show ?case by (cases q) auto
qed

lemma back_chain_links:
  "back_chain P i v q \<Longrightarrow>
   map (\<lambda>(src, dst, key). src) (butlast q) = map (\<lambda>(src, dst, key). dst) (tl q)"
proof (induction P i v q rule: back_chain.induct)
  case (1 P i v)
  then show ?case by simp
next
  case (2 P i v u v' k q)
  then show ?case by (cases q) auto
qed

lemma chained_rev:
  assumes "map (\<lambda>(src, dst, key). src) (butlast q) = map (\<lambda>(src, dst, key). dst) (tl q)"
  shows "chained (rev q)"
proof -
  have 1: "butlast (rev q) = rev (tl q)" by (rule butlast_rev)
  have 2: "tl (rev q) = rev (butlast q)" by (induction q) (auto simp: butlast_append)
  show ?thesis unfolding chained_def 1 2 rev_map [symmetric] using assms by simp
qed


subsection \<open>The graph of a registry\<close>

lemma edges_of_graph_append:
  "edges_of (graph_append g k e) = insert (k, e) (edges_of g)"
proof (induction g k e rule: graph_append.induct)
  case (1 k e)
  then show ?case by (auto simp: edges_of_def)
next
  case (2 k' es g k e)
  have split: "edges_of ((a, xs) # h) = (\<lambda>x. (a, x)) ` set xs \<union> edges_of h" for a xs h
    by (auto simp: edges_of_def)
  show ?case
  proof (cases "k' = k")
    case True
    then show ?thesis by (auto simp: split)
  next
    case False
    then show ?thesis using 2 by (auto simp: split)
  qed
qed

lemma edges_of_add_edge: "edges_of (add_edge g kc) = insert (edge_for kc) (edges_of g)"
  by (cases kc) (simp add: add_edge_def Let_def edges_of_graph_append edge_for_def)

lemma edges_of_foldl:
  "edges_of (foldl add_edge g0 reg) = edges_of g0 \<union> edge_for ` set reg"
proof (induction reg arbitrary: g0)
  case Nil
  then show ?case by simp
next
  case (Cons kc reg)
  have "edges_of (foldl add_edge g0 (kc # reg)) = edges_of (foldl add_edge (add_edge g0 kc) reg)"
    by simp
  also have "\<dots> = edges_of (add_edge g0 kc) \<union> edge_for ` set reg" by (rule Cons.IH)
  finally show ?case by (simp add: edges_of_add_edge)
qed

lemma build_format_graph_foldl: "build_format_graph reg = foldl add_edge [] reg"
  by (simp add: build_format_graph_def add_edge_def)

lemma edges_of_build: "edges_of (build_format_graph reg) = edge_for ` set reg"
  unfolding build_format_graph_foldl edges_of_foldl by (simp add: edges_of_def)

lemma adjacent_build:
  assumes "(v, k, w) \<in> set (adjacent (build_format_graph reg) u)"
  shows "0 < w \<and> dict_get reg k \<noteq> None"
proof -
  from adjacent_mem [OF assms] have "(u, (v, k, w)) \<in> edges_of (build_format_graph reg)"
    by (auto simp: edges_of_def)
  then obtain kc where kc: "kc \<in> set reg" "edge_for kc = (u, (v, k, w))"
    unfolding edges_of_build by auto
  then have k: "fst kc = k" and w: "w = edge_weight u v" by (auto simp: edge_for_def)
  have "k \<in> fst ` set reg" using kc(1) k by force
  then have "map_of reg k \<noteq> None" by (simp add: map_of_eq_None_iff)
  moreover have "0 < w" unfolding w edge_weight_def by simp
  ultimately show ?thesis by (simp add: dict_get_def)
qed

lemma pos_weights_build: "pos_weights (build_format_graph reg)"
  unfolding pos_weights_def using adjacent_build by blast

lemma search_inv_init:
  "search_inv g i \<lparr>dist = [i \<mapsto> 0], prev = Map.empty, pq = [(0, i)]\<rparr>"
  by (rule search_invI) simp_all


subsection \<open>The paths found\<close>

lemma searched_path:
  assumes ne: "a \<noteq> b"
    and s: "s = search_loop (build_format_graph reg) b max_steps
                  \<lparr>dist = [a \<mapsto> 0], prev = Map.empty, pq = [(0, a)]\<rparr>"
    and found: "prev s b \<noteq> None"
  shows "\<exists>q. rebuild (prev s) a b [] = Some (Inr q) \<and> q \<noteq> [] \<and>
             fst (hd (rev q)) = a \<and> fst (snd (last (rev q))) = b \<and> chained (rev q) \<and>
             (\<forall>(src, dst, key) \<in> set (rev q). dict_get reg key \<noteq> None)"
proof -
  have inv: "search_inv (build_format_graph reg) a s"
    unfolding s by (rule search_loop_inv [OF pos_weights_build search_inv_init])
  have "\<exists>q. rebuild (prev s) a b [] = Some (Inr ([] @ q)) \<and> back_chain (prev s) a b q"
  proof (rule rebuild_total [where D = "dist s"])
    fix v u k assume "prev s v = Some (u, k)"
    from search_inv_prev_all [OF inv this]
    show "(\<exists>du dv. dist s u = Some du \<and> dist s v = Some dv \<and> du < dv) \<and>
          (u = a \<or> prev s u \<noteq> None)" by simp
  next
    show "b = a \<or> prev s b \<noteq> None" using found by simp
  qed
  then obtain q where q: "rebuild (prev s) a b [] = Some (Inr q)"
    and bc: "back_chain (prev s) a b q" by auto
  have qne: "q \<noteq> []" using bc ne by (cases q) auto
  have 1: "fst (hd (rev q)) = a" using back_chain_last [OF bc qne] qne by (simp add: hd_rev)
  have 2: "fst (snd (last (rev q))) = b" using back_chain_hd [OF bc qne] qne by (simp add: last_rev)
  have 3: "chained (rev q)" by (rule chained_rev [OF back_chain_links [OF bc]])
  have 4: "\<forall>(src, dst, key) \<in> set (rev q). dict_get reg key \<noteq> None"
  proof (rule ballI)
    fix x assume x: "x \<in> set (rev q)"
    obtain src dst key where t: "x = (src, dst, key)" by (cases x)
    have "(src, dst, key) \<in> set q" using x t by simp
    from back_chain_keys [OF bc this] have "prev s dst = Some (src, key)" .
    from search_inv_prev_all [OF inv this]
    obtain w where "(dst, key, w) \<in> set (adjacent (build_format_graph reg) src)" by blast
    from adjacent_build [OF this] have "dict_get reg key \<noteq> None" by simp
    then show "case x of (src, dst, key) \<Rightarrow> dict_get reg key \<noteq> None" by (simp add: t)
  qed
  show ?thesis using q qne 1 2 3 4 by blast
qed

text \<open>
  C10. \<^verbatim>\<open>find_conversion_path\<close> returns for every registry, all formats and every
  bound (it neither raises nor runs for ever), and a path it returns that is not empty is
  a chain over the registry: its first step starts at the lower-cased input format, its
  last step ends at the lower-cased output format, the target format of each step is the
  source format of the next, and the key of every step is in the registry.
\<close>

theorem find_conversion_path_chain:
  "\<exists>p. find_conversion_path (manager_of reg) input_fmt output_fmt max_steps = Returns p \<and>
       (p \<noteq> [] \<longrightarrow>
          fst (hd p) = lower input_fmt \<and> fst (snd (last p)) = lower output_fmt \<and> chained p \<and>
          (\<forall>(src, dst, key) \<in> set p. dict_get reg key \<noteq> None))"
proof (cases "lower input_fmt = lower output_fmt")
  case True
  then show ?thesis by (simp add: find_conversion_path_def)
next
  case ne: False
  show ?thesis
  proof (cases "dict_get reg (lower input_fmt @ ''_to_'' @ lower output_fmt) \<noteq> None")
    case True
    then have "find_conversion_path (manager_of reg) input_fmt output_fmt max_steps
                 = Returns [(lower input_fmt, lower output_fmt,
                             lower input_fmt @ ''_to_'' @ lower output_fmt)]"
      using ne by (simp add: find_conversion_path_def manager_of_def Let_def)
    then show ?thesis using True by (simp add: chained_def)
  next
    case nodirect: False
    define s where "s = search_loop (build_format_graph reg) (lower output_fmt) max_steps
                  \<lparr>dist = [lower input_fmt \<mapsto> 0], prev = Map.empty, pq = [(0, lower input_fmt)]\<rparr>"
    show ?thesis
    proof (cases "prev s (lower output_fmt) = None")
      case True
      then have "find_conversion_path (manager_of reg) input_fmt output_fmt max_steps = Returns []"
        using ne nodirect unfolding s_def
        by (simp add: find_conversion_path_def manager_of_def Let_def)
      then show ?thesis by simp
    next
      case False
      from searched_path [OF ne s_def False]
      obtain q where q: "rebuild (prev s) (lower input_fmt) (lower output_fmt) [] = Some (Inr q)"
        and props: "q \<noteq> []" "fst (hd (rev q)) = lower input_fmt"
          "fst (snd (last (rev q))) = lower output_fmt" "chained (rev q)"
          "\<forall>(src, dst, key) \<in> set (rev q). dict_get reg key \<noteq> None"
        by blast
      have "find_conversion_path (manager_of reg) input_fmt output_fmt max_steps = Returns (rev q)"
        using ne nodirect False q unfolding s_def
        by (auto simp: find_conversion_path_def manager_of_def Let_def)
      then show ?thesis using props by blast
    qed
  qed
qed


text \<open>On the registry of four converters in a row, from \<^verbatim>\<open>IGES\<close> to \<^verbatim>\<open>stl\<close>.\<close>

theorem find_conversion_path_chain_witness:
  "find_conversion_path (manager_of route_registry) ''IGES'' ''stl'' 3
     = Returns [(''iges'', ''igs'', ''iges_to_igs''), (''igs'', ''step'', ''igs_to_step''),
                (''step'', ''stl'', ''step_to_stl'')]
   \<and> fst (hd [(''iges'', ''igs'', ''iges_to_igs''), (''igs'', ''step'', ''igs_to_step''),
                (''step'', ''stl'', ''step_to_stl'')]) = lower ''IGES''
   \<and> fst (snd (last [(''iges'', ''igs'', ''iges_to_igs''), (''igs'', ''step'', ''igs_to_step''),
                      (''step'', ''stl'', ''step_to_stl'')])) = lower ''stl''
   \<and> chained [(''iges'', ''igs'', ''iges_to_igs''), (''igs'', ''step'', ''igs_to_step''),
              (''step'', ''stl'', ''step_to_stl'')]
   \<and> dict_get route_registry ''iges_to_igs'' \<noteq> None
   \<and> dict_get route_registry ''igs_to_step'' \<noteq> None
   \<and> dict_get route_registry ''step_to_stl'' \<noteq> None"
proof -
  have e: "find_conversion_path (manager_of route_registry) ''IGES'' ''stl'' 3
     = Returns [(''iges'', ''igs'', ''iges_to_igs''), (''igs'', ''step'', ''igs_to_step''),
                (''step'', ''stl'', ''step_to_stl'')]"
    by code_simp
  have l: "lower ''IGES'' = ''iges''" "lower ''stl'' = ''stl''"
    by code_simp+
  show ?thesis
    using find_conversion_path_chain [of route_registry "''IGES''" "''stl''" 3]
    unfolding e l by simp
qed

subsection \<open>The direct converter\<close>




subsection \<open>The bound of the search\<close>

text \<open>
  C4 does not hold of the code. \<^verbatim>\<open>max_steps\<close> is documented as the largest number of
  conversion steps allowed, and the test in the loop is commented as ``more than the
  largest number of steps'', but the test compares \<^verbatim>\<open>max_steps\<close> with the accumulated
  weight, and an edge between alias formats weighs one half. In the registry of four
  converters in a row the path from \<^verbatim>\<open>dxf\<close> to \<^verbatim>\<open>stl\<close> weighs 3.5; its third format
  is taken from the queue at cost 2.5, below the bound 3, so the search goes on and
  returns a path of four steps.
\<close>

theorem search_exceeds_max_steps:
  "find_conversion_path (manager_of route_registry) ''dxf'' ''stl'' 3
     = Returns [(''dxf'', ''iges'', ''dxf_to_iges''), (''iges'', ''igs'', ''iges_to_igs''),
                (''igs'', ''step'', ''igs_to_step''), (''step'', ''stl'', ''step_to_stl'')]"
  by code_simp

subsection \<open>No path\<close>

lemma no_way_to_obj: "find_conversion_path (manager_of route_registry) ''dxf'' ''obj'' 3 = Returns []"
  by code_simp

lemma part_formats:
  "lower (lstrip_dot (lower (splitext_ext ''/data/part.dxf''))) = ''dxf''"
  "lower (lstrip_dot (lower (splitext_ext ''/data/out/part.obj''))) = ''obj''"
  by code_simp+

text \<open>
  C5 does not hold of the code. The message of \<^verbatim>\<open>convert_with_path\<close> for a missing path
  interpolates the two formats it was given, and its documentation asks for them when no
  path is given; but \<^verbatim>\<open>convert\<close> hands on the path it found, here the empty one, and not
  the formats. From \<^verbatim>\<open>dxf\<close> to \<^verbatim>\<open>obj\<close> the registry has no path; \<^verbatim>\<open>convert\<close> returns
  the failure without raising, and the message names \<^verbatim>\<open>None\<close> and \<^verbatim>\<open>None\<close> instead of
  \<^verbatim>\<open>dxf\<close> and \<^verbatim>\<open>obj\<close>.
\<close>

theorem convert_drops_formats:
  "manager_convert (manager_of route_registry) ''/data/part.dxf'' ''/data/out/part.obj'' None None demo_world
     = (Returns (False, NoPath None None), demo_world)"
  by (simp add: manager_convert_def convert_with_path_def execute_path_def no_way_to_obj part_formats)

subsection \<open>Temporary files\<close>

lemma invoke_frame:
  assumes "invoke m key inp out w = (rr, w2)"
  shows "temps_made w2 = temps_made w \<and> locked w2 = locked w"
  using assms by (auto simp: invoke_def Let_def split: option.splits prod.splits)

lemma invoke_calls:
  assumes "invoke m key inp out w = (rr, w2)"
  shows "(rr = Raises KeyError \<and> calls w2 = calls w) \<or>
         calls w2 = calls w @ [(key, inp, out, flag_of rr)]"
  using assms by (auto simp: invoke_def Let_def split: option.splits prod.splits)

lemma named_temporary_file_Inl:
  "named_temporary_file suffix w = (Inl e, w1) \<Longrightarrow> w1 = w"
  by (auto simp: named_temporary_file_def Let_def split: option.splits)

lemma named_temporary_file_Inr:
  "named_temporary_file suffix w = (Inr p, w1) \<Longrightarrow>
     calls w1 = calls w \<and> locked w1 = locked w \<and> temps_made w1 = temps_made w @ [p]"
  by (auto simp: named_temporary_file_def Let_def split: option.splits)

lemma run_steps_temps:
  "run_steps m i steps cur tf w = (r, tf', w') \<Longrightarrow>
   \<exists>ts. tf' = tf @ ts \<and> temps_made w' = temps_made w @ ts \<and> locked w' = locked w"
proof (induction steps arbitrary: i cur tf w)
  case Nil
  then show ?case by simp
next
  case (Cons st steps)
  obtain src dst key where st: "st = (src, dst, key)" by (cases st)
  obtain a w1 where n: "named_temporary_file (''.'' @ dst) w = (a, w1)" by force
  show ?case
  proof (cases a)
    case (Inl e)
    with Cons.prems st n named_temporary_file_Inl [of "''.'' @ dst" w e w1] show ?thesis by simp
  next
    case (Inr p)
    obtain rr w2 where v: "invoke m key cur p w1 = (rr, w2)" by force
    have f1: "locked w1 = locked w" "temps_made w1 = temps_made w @ [p]"
      using named_temporary_file_Inr [of "''.'' @ dst" w p w1] n Inr by simp_all
    have f2: "temps_made w2 = temps_made w1" "locked w2 = locked w1"
      using invoke_frame [OF v] by simp_all
    show ?thesis
    proof (cases rr)
      case (Returns x)
      obtain success result where x: "x = (success, result)" by (cases x)
      show ?thesis
      proof (cases success)
        case True
        then have "run_steps m (i + 1) steps p (tf @ [p]) w2 = (r, tf', w')"
          using Cons.prems st n Inr v Returns x by simp
        from Cons.IH [OF this] obtain ts where
          "tf' = (tf @ [p]) @ ts" "temps_made w' = temps_made w2 @ ts" "locked w' = locked w2"
          by blast
        then show ?thesis using f1 f2 by simp
      next
        case False
        then have "tf' = tf @ [p]" "w' = w2"
          using Cons.prems st n Inr v Returns x by simp_all
        then show ?thesis using f1 f2 by simp
      qed
    next
      case (Raises e)
      then have "tf' = tf @ [p]" "w' = w2"
        using Cons.prems st n Inr v by simp_all
      then show ?thesis using f1 f2 by simp
    next
      case Diverges
      then have "tf' = tf @ [p]" "w' = w2"
        using Cons.prems st n Inr v by simp_all
      then show ?thesis using f1 f2 by simp
    qed
  qed
qed

lemma cleanup_Nil: "cleanup [] w = w"
  by (simp add: cleanup_def)

lemma cleanup_Cons: "cleanup (t # ts) w = cleanup ts (cleanup [t] w)"
  by (simp add: cleanup_def)

lemma cleanup_one:
  "temps_made (cleanup [t] w) = temps_made w \<and> locked (cleanup [t] w) = locked w \<and>
   calls (cleanup [t] w) = calls w \<and> files (cleanup [t] w) \<subseteq> files w \<and>
   (t \<notin> files (cleanup [t] w) \<or> t \<in> locked w)"
  by (auto simp: cleanup_def os_remove_def)

lemma cleanup_frame:
  "temps_made (cleanup ts w) = temps_made w \<and> locked (cleanup ts w) = locked w \<and>
   calls (cleanup ts w) = calls w \<and> files (cleanup ts w) \<subseteq> files w"
proof (induction ts arbitrary: w)
  case Nil
  show ?case by (simp add: cleanup_Nil)
next
  case (Cons t ts)
  have "temps_made (cleanup ts (cleanup [t] w)) = temps_made w \<and>
        locked (cleanup ts (cleanup [t] w)) = locked w \<and>
        calls (cleanup ts (cleanup [t] w)) = calls w \<and>
        files (cleanup ts (cleanup [t] w)) \<subseteq> files w"
    using Cons.IH [of "cleanup [t] w"] cleanup_one [of t w] by auto
  then show ?case by (simp only: cleanup_Cons [of t ts w])
qed

lemma cleanup_removes:
  "t \<in> set ts \<Longrightarrow> t \<notin> files (cleanup ts w) \<or> t \<in> locked w"
proof (induction ts arbitrary: w)
  case Nil
  then show ?case by simp
next
  case (Cons a ts)
  show ?case
  proof (cases "t = a")
    case True
    have "files (cleanup ts (cleanup [a] w)) \<subseteq> files (cleanup [a] w)"
      using cleanup_frame [of ts "cleanup [a] w"] by simp
    then have "t \<notin> files (cleanup ts (cleanup [a] w)) \<or> t \<in> locked w"
      using cleanup_one [of a w] True by blast
    then show ?thesis by (simp only: cleanup_Cons [of a ts w])
  next
    case False
    then have "t \<in> set ts" using Cons.prems by simp
    from Cons.IH [OF this, of "cleanup [a] w"] cleanup_one [of a w]
    have "t \<notin> files (cleanup ts (cleanup [a] w)) \<or> t \<in> locked w" by simp
    then show ?thesis by (simp only: cleanup_Cons [of a ts w])
  qed
qed

lemma last_step_frame:
  "last_step m st cur out w = (res, w1) \<Longrightarrow> temps_made w1 = temps_made w \<and> locked w1 = locked w"
  by (auto simp: last_step_def split: prod.splits outcome.splits if_splits dest: invoke_frame)

lemma single_step_frame:
  "single_step m st cur out w = (res, w1) \<Longrightarrow> temps_made w1 = temps_made w \<and> locked w1 = locked w"
  by (auto simp: single_step_def split: prod.splits outcome.splits if_splits dest: invoke_frame)

lemma execute_path_temps:
  assumes run: "execute_path m path input_path output_path input_fmt output_fmt w = (res, w')"
    and ret: "res \<noteq> Diverges"
  shows "locked w' = locked w \<and>
         (\<exists>ts. temps_made w' = temps_made w @ ts \<and> (\<forall>t \<in> set ts. t \<notin> files w' \<or> t \<in> locked w))"
proof (cases "path = []")
  case True
  with run show ?thesis by (simp add: execute_path_def)
next
  case ne: False
  show ?thesis
  proof (cases "length path = 1")
    case True
    with run ne have "single_step m (hd path) input_path output_path w = (res, w')"
      by (simp add: execute_path_def)
    from single_step_frame [OF this] show ?thesis by simp
  next
    case False
    obtain r tf w1 where rs: "run_steps m 0 (butlast path) input_path [] w = (r, tf, w1)"
      by (cases "run_steps m 0 (butlast path) input_path [] w") auto
    from run_steps_temps [OF rs] have tf: "temps_made w1 = temps_made w @ tf" "locked w1 = locked w"
      by auto
    obtain res0 w2 where l: "(case r of Inr early \<Rightarrow> (early, w1)
                              | Inl current_input \<Rightarrow> last_step m (last path) current_input output_path w1)
                             = (res0, w2)"
      by force
    have f2: "temps_made w2 = temps_made w1 \<and> locked w2 = locked w1"
      using l by (cases r) (auto dest: last_step_frame)
    have e: "(res, w') = (case res0 of Diverges \<Rightarrow> (Diverges, w2) | _ \<Rightarrow> (res0, cleanup tf w2))"
      using run ne False rs l by (simp add: execute_path_def)
    have w': "w' = cleanup tf w2"
      using e ret by (cases res0) auto
    have "\<forall>t \<in> set tf. t \<notin> files w' \<or> t \<in> locked w"
      using cleanup_removes [of _ tf w2] f2 tf w' by auto
    then show ?thesis
      using cleanup_frame [of tf w2] f2 tf w' by auto
  qed
qed

text \<open>Facts for running the examples.\<close>

lemma digits_0_2: "str_nat 0 = ''0''" "str_nat 1 = ''1''" "str_nat (Suc 0) = ''1''" "str_nat 2 = ''2''"
  by code_simp+

lemma lower_examples:
  "lower ''DXF'' = ''dxf''" "lower ''dxf'' = ''dxf''" "lower ''iges'' = ''iges''" "lower ''igs'' = ''igs''"
  "lower ''step'' = ''step''" "lower ''stl'' = ''stl''"
  by code_simp+

lemma registry_manager_of: "registry (manager_of reg) = reg"
  by (simp add: manager_of_def)

lemma copy_converter_convert:
  "convert (copy_converter i out) input_path output_path fs =
     (if input_path \<in> fs then (Returns (True, output_path), insert output_path fs)
      else (Returns (False, ''no input file''), fs))"
  by (simp add: copy_converter_def)

lemma failing_converter_convert:
  "convert (failing_converter i out) input_path output_path fs = (Returns (False, ''conversion failed''), fs)"
  by (simp add: failing_converter_def)

lemma example_formats:
  "input_format (copy_converter i out) = i" "output_format (copy_converter i out) = out"
  "input_format (failing_converter i out) = i" "output_format (failing_converter i out) = out"
  by (simp_all add: copy_converter_def failing_converter_def)

lemma route_registry_eq:
  "route_registry =
     [(''dxf_to_iges'', copy_converter ''DXF'' ''iges''), (''iges_to_igs'', copy_converter ''iges'' ''igs''),
      (''igs_to_step'', copy_converter ''igs'' ''step''), (''step_to_stl'', copy_converter ''step'' ''stl'')]"
  by (simp add: route_registry_def load_converters_def register_def registry_key_def
        example_formats lower_examples)

lemma route_lookup:
  "dict_get route_registry ''dxf_to_iges'' = Some (copy_converter ''DXF'' ''iges'')"
  "dict_get route_registry ''iges_to_igs'' = Some (copy_converter ''iges'' ''igs'')"
  "dict_get route_registry ''igs_to_step'' = Some (copy_converter ''igs'' ''step'')"
  "dict_get route_registry ''step_to_stl'' = Some (copy_converter ''step'' ''stl'')"
  by (simp_all add: route_registry_eq dict_get_def)

lemma faulty_lookup:
  "dict_get faulty_registry ''dxf_to_iges'' = Some (copy_converter ''dxf'' ''iges'')"
  "dict_get faulty_registry ''iges_to_igs'' = Some (failing_converter ''iges'' ''igs'')"
  "dict_get faulty_registry ''igs_to_step'' = Some (copy_converter ''igs'' ''step'')"
  by (simp_all add: faulty_registry_def load_converters_def register_def registry_key_def
        example_formats lower_examples dict_get_def)

lemma last_fails_lookup:
  "dict_get last_fails_registry ''dxf_to_iges'' = Some (copy_converter ''dxf'' ''iges'')"
  "dict_get last_fails_registry ''iges_to_igs'' = Some (failing_converter ''iges'' ''igs'')"
  by (simp_all add: last_fails_registry_def load_converters_def register_def registry_key_def
        example_formats lower_examples dict_get_def)

lemma route_dxf_igs:
  "find_conversion_path (manager_of route_registry) ''dxf'' ''igs'' 3
     = Returns [(''dxf'', ''iges'', ''dxf_to_iges''), (''iges'', ''igs'', ''iges_to_igs'')]"
  by code_simp

lemma route_dxf_step:
  "find_conversion_path (manager_of route_registry) ''dxf'' ''step'' 3
     = Returns [(''dxf'', ''iges'', ''dxf_to_iges''), (''iges'', ''igs'', ''iges_to_igs''),
                (''igs'', ''step'', ''igs_to_step'')]"
  by code_simp

lemmas run_eval = convert_with_path_def execute_path_def named_temporary_file_def invoke_def
  last_step_def single_step_def cleanup_def os_remove_def flag_of_def registry_manager_of
  copy_converter_convert failing_converter_convert temps_since_def calls_since_def Let_def digits_0_2

text \<open>
  In \<open>locked_world\<close> the conversion from \<^verbatim>\<open>dxf\<close> to \<^verbatim>\<open>igs\<close> takes two steps and
  one temporary file, \<^verbatim>\<open>/tmp/tmp0.iges\<close>. Both steps succeed and the call returns the
  output path; the removal of the temporary file is refused, the \<^verbatim>\<open>finally\<close> block
  logs a warning, and the file is still there when the call has returned.
\<close>

theorem temporary_left_behind:
  "fst (convert_with_path (manager_of route_registry) ''/data/part.dxf'' ''/data/out/part.igs'' None
          (Some ''dxf'') (Some ''igs'') locked_world) = Returns (True, Path ''/data/out/part.igs'')
   \<and> temps_since locked_world
        (snd (convert_with_path (manager_of route_registry) ''/data/part.dxf'' ''/data/out/part.igs'' None
                (Some ''dxf'') (Some ''igs'') locked_world)) = [''/tmp/tmp0.iges'']
   \<and> ''/tmp/tmp0.iges'' \<in> files
        (snd (convert_with_path (manager_of route_registry) ''/data/part.dxf'' ''/data/out/part.igs'' None
                (Some ''dxf'') (Some ''igs'') locked_world))"
  by (simp add: run_eval route_dxf_igs route_lookup locked_world_def demo_world_def)

text \<open>
  C6, as the code has it. Whenever \<^verbatim>\<open>convert_with_path\<close> returns or raises, with
  success or with a failure at any step, every temporary file that the call created is
  gone, unless the operating system refused to remove it: the \<^verbatim>\<open>finally\<close> block
  catches a removal that raises, logs it and leaves that file where it is.
\<close>

theorem temporaries_removed:
  assumes run: "convert_with_path m input_path output_path conversion_path input_fmt output_fmt w = (res, w')"
    and ret: "res \<noteq> Diverges"
  shows "\<forall>t \<in> set (temps_since w w'). t \<notin> files w' \<or> t \<in> locked w'"
proof -
  define found where "found =
     (if (case conversion_path of None \<Rightarrow> [] | Some p \<Rightarrow> p) = [] \<and> truthy input_fmt \<and> truthy output_fmt
      then find_conversion_path m (case input_fmt of Some i \<Rightarrow> i | None \<Rightarrow> [])
             (case output_fmt of Some out \<Rightarrow> out | None \<Rightarrow> []) 3
      else Returns (case conversion_path of None \<Rightarrow> [] | Some p \<Rightarrow> p))"
  have c: "(res, w') = (case found of
           Returns path \<Rightarrow> execute_path m path input_path output_path input_fmt output_fmt w
         | Raises e \<Rightarrow> (Raises e, w)
         | Diverges \<Rightarrow> (Diverges, w))"
    using run unfolding found_def by (simp add: convert_with_path_def Let_def)
  show ?thesis
  proof (cases found)
    case (Returns path)
    with c have "execute_path m path input_path output_path input_fmt output_fmt w = (res, w')" by simp
    from execute_path_temps [OF this ret] show ?thesis
      by (auto simp: temps_since_def)
  next
    case (Raises e)
    with c show ?thesis by (simp add: temps_since_def)
  next
    case Diverges
    with c ret show ?thesis by simp
  qed
qed

text \<open>In \<open>demo_world\<close>, from \<^verbatim>\<open>dxf\<close> to \<^verbatim>\<open>step\<close>: three steps, two temporary
  files, both gone when the call has returned.\<close>

theorem temporaries_removed_witness:
  "fst (convert_with_path (manager_of route_registry) ''/data/part.dxf'' ''/data/out/part.step'' None
          (Some ''dxf'') (Some ''step'') demo_world) = Returns (True, Path ''/data/out/part.step'')
   \<and> temps_since demo_world
        (snd (convert_with_path (manager_of route_registry) ''/data/part.dxf'' ''/data/out/part.step'' None
                (Some ''dxf'') (Some ''step'') demo_world)) = [''/tmp/tmp0.iges'', ''/tmp/tmp1.igs'']
   \<and> ''/tmp/tmp0.iges'' \<notin> files
        (snd (convert_with_path (manager_of route_registry) ''/data/part.dxf'' ''/data/out/part.step'' None
                (Some ''dxf'') (Some ''step'') demo_world))
   \<and> ''/tmp/tmp1.igs'' \<notin> files
        (snd (convert_with_path (manager_of route_registry) ''/data/part.dxf'' ''/data/out/part.step'' None
                (Some ''dxf'') (Some ''step'') demo_world))"
proof -
  let ?X = "convert_with_path (manager_of route_registry) ''/data/part.dxf'' ''/data/out/part.step'' None
              (Some ''dxf'') (Some ''step'') demo_world"
  have r: "fst ?X = Returns (True, Path ''/data/out/part.step'')"
    by (simp add: run_eval route_dxf_step route_lookup demo_world_def)
  have t: "temps_since demo_world (snd ?X) = [''/tmp/tmp0.iges'', ''/tmp/tmp1.igs'']"
    by (simp add: run_eval route_dxf_step route_lookup demo_world_def)
  have l: "locked (snd ?X) = {}"
    by (simp add: run_eval route_dxf_step route_lookup demo_world_def)
  have x: "?X = (fst ?X, snd ?X)" by simp
  have "\<forall>t \<in> set (temps_since demo_world (snd ?X)). t \<notin> files (snd ?X) \<or> t \<in> locked (snd ?X)"
    using temporaries_removed [OF x] r by simp
  then show ?thesis using r t l by simp
qed

subsection \<open>A step that fails\<close>

lemma run_steps_calls:
  "run_steps m i steps cur tf w = (r, tf', w') \<Longrightarrow>
   \<exists>cs. calls w' = calls w @ cs \<and> length cs \<le> length steps \<and>
        map call_key cs = take (length cs) (map step_key steps) \<and>
        (\<forall>k<length cs. call_flag (cs ! k) = Some False \<longrightarrow>
            Suc k = length cs \<and>
            r = Inr (Returns (False, StepFailed (i + Suc k) (fst (steps ! k)) (fst (snd (steps ! k)))))) \<and>
        (\<forall>x. r = Inl x \<longrightarrow> length cs = length steps)"
proof (induction steps arbitrary: i cur tf w)
  case Nil
  then show ?case by simp
next
  case (Cons st steps)
  obtain src dst key where st: "st = (src, dst, key)" by (cases st)
  obtain a w1 where n: "named_temporary_file (''.'' @ dst) w = (a, w1)" by force
  show ?case
  proof (cases a)
    case (Inl e)
    with Cons.prems st n named_temporary_file_Inl [of "''.'' @ dst" w e w1]
    have "calls w' = calls w" "r = Inr (Raises e)" by simp_all
    then show ?thesis by simp
  next
    case (Inr p)
    obtain rr w2 where v: "invoke m key cur p w1 = (rr, w2)" by force
    have f1: "calls w1 = calls w"
      using named_temporary_file_Inr [of "''.'' @ dst" w p w1] n Inr by simp
    let ?c = "(key, cur, p, flag_of rr)"
    show ?thesis
    proof (cases rr)
      case (Returns x)
      obtain success result where x: "x = (success, result)" by (cases x)
      have c2: "calls w2 = calls w @ [?c]" using invoke_calls [OF v] Returns f1 by simp
      have fl: "call_flag ?c = Some success" using Returns x by (simp add: call_flag_def flag_of_def)
      show ?thesis
      proof (cases success)
        case True
        then have "run_steps m (i + 1) steps p (tf @ [p]) w2 = (r, tf', w')"
          using Cons.prems st n Inr v Returns x by simp
        from Cons.IH [OF this] obtain cs where cs: "calls w' = calls w2 @ cs" "length cs \<le> length steps"
          "map call_key cs = take (length cs) (map step_key steps)"
          "\<forall>k<length cs. call_flag (cs ! k) = Some False \<longrightarrow>
            Suc k = length cs \<and>
            r = Inr (Returns (False, StepFailed (i + 1 + Suc k) (fst (steps ! k)) (fst (snd (steps ! k)))))"
          "\<forall>x. r = Inl x \<longrightarrow> length cs = length steps"
          by blast
        have 1: "calls w' = calls w @ (?c # cs)" using cs(1) c2 by simp
        have 2: "length (?c # cs) \<le> length (st # steps)" using cs(2) by simp
        have 3: "map call_key (?c # cs) = take (length (?c # cs)) (map step_key (st # steps))"
          using cs(3) st by (simp add: call_key_def step_key_def)
        have 4: "\<forall>k<length (?c # cs). call_flag ((?c # cs) ! k) = Some False \<longrightarrow>
            Suc k = length (?c # cs) \<and>
            r = Inr (Returns (False, StepFailed (i + Suc k) (fst ((st # steps) ! k)) (fst (snd ((st # steps) ! k)))))"
        proof (intro allI impI)
          fix k assume k: "k < length (?c # cs)" and f: "call_flag ((?c # cs) ! k) = Some False"
          show "Suc k = length (?c # cs) \<and>
            r = Inr (Returns (False, StepFailed (i + Suc k) (fst ((st # steps) ! k)) (fst (snd ((st # steps) ! k)))))"
          proof (cases k)
            case 0
            with f fl True show ?thesis by simp
          next
            case (Suc j)
            with k f have "j < length cs" "call_flag (cs ! j) = Some False" by simp_all
            with cs(4) have a: "Suc j = length cs"
              and b: "r = Inr (Returns (False, StepFailed (i + 1 + Suc j) (fst (steps ! j)) (fst (snd (steps ! j)))))"
              by blast+
            have n: "(st # steps) ! k = steps ! j" using Suc by simp
            have ix: "i + Suc k = i + 1 + Suc j" using Suc by simp
            have l: "Suc k = length (?c # cs)" using a Suc by simp
            show ?thesis unfolding n ix using l b by simp
          qed
        qed
        have 5: "\<forall>x. r = Inl x \<longrightarrow> length (?c # cs) = length (st # steps)" using cs(5) by simp
        from 1 2 3 4 5 show ?thesis by blast
      next
        case False
        then have e: "w' = w2" "r = Inr (Returns (False, StepFailed (i + 1) src dst))"
          using Cons.prems st n Inr v Returns x by simp_all
        have "calls w' = calls w @ [?c]" using e c2 by simp
        moreover have "map call_key [?c] = take (length [?c]) (map step_key (st # steps))"
          using st by (simp add: call_key_def step_key_def)
        moreover have "\<forall>k<length [?c]. call_flag ([?c] ! k) = Some False \<longrightarrow>
            Suc k = length [?c] \<and>
            r = Inr (Returns (False, StepFailed (i + Suc k) (fst ((st # steps) ! k)) (fst (snd ((st # steps) ! k)))))"
          using e st by simp
        moreover have "\<forall>x. r = Inl x \<longrightarrow> length [?c] = length (st # steps)" using e by simp
        moreover have "length [?c] \<le> length (st # steps)" by simp
        ultimately show ?thesis by blast
      qed
    next
      case (Raises e)
      then have e: "w' = w2" "r = Inr (Raises e)"
        using Cons.prems st n Inr v by simp_all
      have fl: "call_flag ?c = None" using Raises by (simp add: call_flag_def flag_of_def)
      from invoke_calls [OF v] show ?thesis
      proof
        assume "rr = Raises KeyError \<and> calls w2 = calls w1"
        then have "calls w' = calls w @ []" using e f1 by simp
        then show ?thesis using e by (intro exI [of _ "[]"]) simp
      next
        assume "calls w2 = calls w1 @ [?c]"
        then have "calls w' = calls w @ [?c]" using e f1 by simp
        then show ?thesis using e fl st
          by (intro exI [of _ "[?c]"]) (simp add: call_key_def step_key_def)
      qed
    next
      case Diverges
      then have e: "w' = w2" "r = Inr Diverges"
        using Cons.prems st n Inr v by simp_all
      have fl: "call_flag ?c = None" using Diverges by (simp add: call_flag_def flag_of_def)
      have "calls w' = calls w @ [?c]" using invoke_calls [OF v] Diverges e f1 by simp
      then show ?thesis using e fl st
        by (intro exI [of _ "[?c]"]) (simp add: call_key_def step_key_def)
    qed
  qed
qed

lemma last_step_calls:
  assumes "last_step m st cur out w = (res, w1)"
  shows "calls w1 = calls w \<or>
         (\<exists>flag. calls w1 = calls w @ [(step_key st, cur, out, flag)] \<and>
            (flag = Some False \<longrightarrow> res = Returns (False, LastStepFailed (fst st) (fst (snd st)))))"
proof -
  obtain src dst key where st: "st = (src, dst, key)" by (cases st)
  obtain rr w2 where v: "invoke m key cur out w = (rr, w2)" by force
  from invoke_calls [OF v] show ?thesis
  proof
    assume a: "rr = Raises KeyError \<and> calls w2 = calls w"
    then have "w1 = w2" using assms st v by (simp add: last_step_def)
    then show ?thesis using a by simp
  next
    assume a: "calls w2 = calls w @ [(key, cur, out, flag_of rr)]"
    have w: "w1 = w2" using assms st v
      by (cases rr) (auto simp: last_step_def split: if_splits)
    have "flag_of rr = Some False \<longrightarrow> res = Returns (False, LastStepFailed src dst)"
      using assms st v by (cases rr) (auto simp: last_step_def flag_of_def split: if_splits)
    then show ?thesis using a w st by (simp add: step_key_def)
  qed
qed

lemma execute_path_calls:
  assumes len: "2 \<le> length path"
    and run: "execute_path m path input_path output_path input_fmt output_fmt w = (res, w')"
  shows "\<exists>cs. calls w' = calls w @ cs \<and> length cs \<le> length path \<and>
          map call_key cs = take (length cs) (map step_key path) \<and>
          (\<forall>k<length cs. call_flag (cs ! k) = Some False \<longrightarrow>
              Suc k = length cs \<and> res = Returns (False, failure_of path k))"
proof -
  have ne: "path \<noteq> []" "length path \<noteq> 1" using len by auto
  obtain r tf w1 where rs: "run_steps m 0 (butlast path) input_path [] w = (r, tf, w1)"
    by (cases "run_steps m 0 (butlast path) input_path [] w") auto
  from run_steps_calls [OF rs] obtain cs where cs: "calls w1 = calls w @ cs"
    "length cs \<le> length (butlast path)"
    "map call_key cs = take (length cs) (map step_key (butlast path))"
    "\<forall>k<length cs. call_flag (cs ! k) = Some False \<longrightarrow>
        Suc k = length cs \<and>
        r = Inr (Returns (False, StepFailed (0 + Suc k) (fst (butlast path ! k)) (fst (snd (butlast path ! k)))))"
    "\<forall>x. r = Inl x \<longrightarrow> length cs = length (butlast path)"
    by blast
  have lt: "length cs < length path" using cs(2) len unfolding length_butlast by arith
  have tk: "map call_key cs = take (length cs) (map step_key path)"
    using cs(3) lt by (simp add: map_butlast take_butlast)
  show ?thesis
  proof (cases r)
    case (Inr early)
    then have e: "(res, w') = (case early of Diverges \<Rightarrow> (Diverges, w1) | _ \<Rightarrow> (early, cleanup tf w1))"
      using run ne rs by (simp add: execute_path_def)
    have res: "res = early" using e by (cases early) auto
    have cw: "calls w' = calls w1" using e cleanup_frame [of tf w1] by (cases early) auto
    have 4: "\<forall>k<length cs. call_flag (cs ! k) = Some False \<longrightarrow>
              Suc k = length cs \<and> res = Returns (False, failure_of path k)"
    proof (intro allI impI)
      fix k assume k: "k < length cs" and f: "call_flag (cs ! k) = Some False"
      with cs(4) have a: "Suc k = length cs"
        and b: "r = Inr (Returns (False, StepFailed (0 + Suc k) (fst (butlast path ! k)) (fst (snd (butlast path ! k)))))"
        by blast+
      have kb: "k < length (butlast path)" using k cs(2) by simp
      have n: "butlast path ! k = path ! k" using kb by (simp add: nth_butlast)
      have "Suc k < length path" using kb by simp
      then have "failure_of path k = StepFailed (Suc k) (fst (path ! k)) (fst (snd (path ! k)))"
        by (simp add: failure_of_def)
      then show "Suc k = length cs \<and> res = Returns (False, failure_of path k)"
        using a b Inr res n by simp
    qed
    have "length cs \<le> length path" using lt by simp
    then show ?thesis using cs(1) cw tk 4 by (intro exI [of _ cs]) simp
  next
    case (Inl cur)
    have full: "length cs = length (butlast path)" using cs(5) Inl by simp
    have nofalse: "\<forall>k<length cs. call_flag (cs ! k) \<noteq> Some False" using cs(4) Inl by auto
    obtain res0 w2 where ls: "last_step m (last path) cur output_path w1 = (res0, w2)" by force
    have e: "(res, w') = (case res0 of Diverges \<Rightarrow> (Diverges, w2) | _ \<Rightarrow> (res0, cleanup tf w2))"
      using run ne rs Inl ls by (simp add: execute_path_def)
    have res: "res = res0" using e by (cases res0) auto
    have cw: "calls w' = calls w2" using e cleanup_frame [of tf w2] by (cases res0) auto
    from last_step_calls [OF ls] show ?thesis
    proof
      assume "calls w2 = calls w1"
      then have "calls w' = calls w @ cs" using cw cs(1) by simp
      moreover have "length cs \<le> length path" using lt by simp
      ultimately show ?thesis using tk nofalse by (intro exI [of _ cs]) simp
    next
      assume "\<exists>flag. calls w2 = calls w1 @ [(step_key (last path), cur, output_path, flag)] \<and>
            (flag = Some False \<longrightarrow>
               res0 = Returns (False, LastStepFailed (fst (last path)) (fst (snd (last path)))))"
      then obtain flag where c: "calls w2 = calls w1 @ [(step_key (last path), cur, output_path, flag)]"
        and ff: "flag = Some False \<longrightarrow>
               res0 = Returns (False, LastStepFailed (fst (last path)) (fst (snd (last path))))"
        by blast
      let ?c = "(step_key (last path), cur, output_path, flag)"
      have 1: "calls w' = calls w @ (cs @ [?c])" using cw c cs(1) by simp
      have lc: "length (cs @ [?c]) = length path" using full ne(1) by simp
      have "map call_key cs = map step_key (butlast path)" using cs(3) full by simp
      then have "map call_key (cs @ [?c]) = map step_key (butlast path @ [last path])"
        by (simp add: call_key_def)
      then have 3: "map call_key (cs @ [?c]) = take (length (cs @ [?c])) (map step_key path)"
        using ne(1) lc by simp
      have 4: "\<forall>k<length (cs @ [?c]). call_flag ((cs @ [?c]) ! k) = Some False \<longrightarrow>
              Suc k = length (cs @ [?c]) \<and> res = Returns (False, failure_of path k)"
      proof (intro allI impI)
        fix k assume k: "k < length (cs @ [?c])" and f: "call_flag ((cs @ [?c]) ! k) = Some False"
        show "Suc k = length (cs @ [?c]) \<and> res = Returns (False, failure_of path k)"
        proof (cases "k < length cs")
          case True
          then have "call_flag (cs ! k) = Some False" using f by (simp add: nth_append)
          with nofalse True show ?thesis by blast
        next
          case False
          then have kk: "k = length cs" using k by simp
          then have "flag = Some False" using f by (simp add: call_flag_def)
          with ff res have r: "res = Returns (False, LastStepFailed (fst (last path)) (fst (snd (last path))))"
            by simp
          have kl: "k = length path - 1" using kk full by simp
          then have "path ! k = last path" using ne(1) by (simp add: last_conv_nth)
          moreover have "\<not> Suc k < length path" using kl by simp
          ultimately have "failure_of path k = LastStepFailed (fst (last path)) (fst (snd (last path)))"
            by (simp add: failure_of_def)
          then show ?thesis using r kk by simp
        qed
      qed
      have "length (cs @ [?c]) \<le> length path" using lc by simp
      with 1 3 4 show ?thesis by blast
    qed
  qed
qed

text \<open>
  A path of two steps whose second converter reports failure: the first converter and
  then the second are called, and the result is the message for the last step, which
  names the two formats and no index.
\<close>

theorem last_step_failure_counterexample:
  "fst (convert_with_path (manager_of last_fails_registry) ''/data/part.dxf'' ''/data/out/part.igs''
          (Some [(''dxf'', ''iges'', ''dxf_to_iges''), (''iges'', ''igs'', ''iges_to_igs'')]) None None
          demo_world)
     = Returns (False, LastStepFailed ''iges'' ''igs'')
   \<and> calls_since demo_world
        (snd (convert_with_path (manager_of last_fails_registry) ''/data/part.dxf'' ''/data/out/part.igs''
                (Some [(''dxf'', ''iges'', ''dxf_to_iges''), (''iges'', ''igs'', ''iges_to_igs'')]) None None
                demo_world))
     = [(''dxf_to_iges'', ''/data/part.dxf'', ''/tmp/tmp0.iges'', Some True),
        (''iges_to_igs'', ''/tmp/tmp0.iges'', ''/data/out/part.igs'', Some False)]"
  by (simp add: run_eval last_fails_lookup demo_world_def)

text \<open>
  C7, as the code has it. In the execution of a path of two or more steps the converters
  are called in the order of the path, and a call that reports failure is the last call
  made: no converter of a later step is called. The result then is a failure whose
  message names the source and target format of the failed step; it carries the index of
  the step, counted from 1, when the step is not the last of the path, and says ``the
  last step'' without an index when it is.
\<close>

theorem step_failure_aborts:
  assumes len: "2 \<le> length path"
    and run: "convert_with_path m input_path output_path (Some path) input_fmt output_fmt w = (res, w')"
  shows "length (calls_since w w') \<le> length path
       \<and> map call_key (calls_since w w') = take (length (calls_since w w')) (map step_key path)
       \<and> (\<forall>k<length (calls_since w w'). call_flag (calls_since w w' ! k) = Some False \<longrightarrow>
              Suc k = length (calls_since w w') \<and> res = Returns (False, failure_of path k))"
proof -
  have "path \<noteq> []" using len by auto
  then have "execute_path m path input_path output_path input_fmt output_fmt w = (res, w')"
    using run by (simp add: convert_with_path_def)
  from execute_path_calls [OF len this] obtain cs where cs: "calls w' = calls w @ cs"
    "length cs \<le> length path" "map call_key cs = take (length cs) (map step_key path)"
    "\<forall>k<length cs. call_flag (cs ! k) = Some False \<longrightarrow>
              Suc k = length cs \<and> res = Returns (False, failure_of path k)"
    by blast
  have "calls_since w w' = cs" using cs(1) by (simp add: calls_since_def)
  then show ?thesis using cs(2,3,4) by simp
qed

text \<open>Three steps, of which the second fails: two calls, and the message carries the
  index 2.\<close>

theorem step_failure_aborts_witness:
  "2 \<le> length [(''dxf'', ''iges'', ''dxf_to_iges''), (''iges'', ''igs'', ''iges_to_igs''),
                (''igs'', ''step'', ''igs_to_step'')]
   \<and> calls_since demo_world
        (snd (convert_with_path (manager_of faulty_registry) ''/data/part.dxf'' ''/data/out/part.step''
                (Some [(''dxf'', ''iges'', ''dxf_to_iges''), (''iges'', ''igs'', ''iges_to_igs''),
                       (''igs'', ''step'', ''igs_to_step'')]) None None demo_world))
     = [(''dxf_to_iges'', ''/data/part.dxf'', ''/tmp/tmp0.iges'', Some True),
        (''iges_to_igs'', ''/tmp/tmp0.iges'', ''/tmp/tmp1.igs'', Some False)]
   \<and> fst (convert_with_path (manager_of faulty_registry) ''/data/part.dxf'' ''/data/out/part.step''
            (Some [(''dxf'', ''iges'', ''dxf_to_iges''), (''iges'', ''igs'', ''iges_to_igs''),
                   (''igs'', ''step'', ''igs_to_step'')]) None None demo_world)
     = Returns (False, StepFailed 2 ''iges'' ''igs'')"
proof -
  let ?P = "[(''dxf'', ''iges'', ''dxf_to_iges''), (''iges'', ''igs'', ''iges_to_igs''),
             (''igs'', ''step'', ''igs_to_step'')]"
  let ?X = "convert_with_path (manager_of faulty_registry) ''/data/part.dxf'' ''/data/out/part.step''
              (Some ?P) None None demo_world"
  have t: "calls_since demo_world (snd ?X)
     = [(''dxf_to_iges'', ''/data/part.dxf'', ''/tmp/tmp0.iges'', Some True),
        (''iges_to_igs'', ''/tmp/tmp0.iges'', ''/tmp/tmp1.igs'', Some False)]"
    by (simp add: run_eval faulty_lookup demo_world_def)
  have len: "2 \<le> length ?P" by simp
  have x: "?X = (fst ?X, snd ?X)" by simp
  have "\<forall>k<length (calls_since demo_world (snd ?X)).
          call_flag (calls_since demo_world (snd ?X) ! k) = Some False \<longrightarrow>
          Suc k = length (calls_since demo_world (snd ?X)) \<and> fst ?X = Returns (False, failure_of ?P k)"
    using step_failure_aborts [OF len x] by blast
  then have "call_flag ([(''dxf_to_iges'', ''/data/part.dxf'', ''/tmp/tmp0.iges'', Some True),
        (''iges_to_igs'', ''/tmp/tmp0.iges'', ''/tmp/tmp1.igs'', Some False)] ! 1) = Some False \<longrightarrow>
          fst ?X = Returns (False, failure_of ?P 1)"
    unfolding t by simp
  then have "fst ?X = Returns (False, failure_of ?P 1)" by (simp add: call_flag_def)
  then have "fst ?X = Returns (False, StepFailed 2 ''iges'' ''igs'')" by (simp add: failure_of_def)
  then show ?thesis using t by simp
qed

section \<open>Properties of the worker\<close>




end
